theory Spec2Isabelle
  imports Complex_Main "HOL-Library.Product_Lexorder" "HOL-Library.Log_Nat"
begin

section \<open>Dates and times as the program uses them\<close>

text \<open>
  The dashboard is written against Python's \<^verbatim>\<open>datetime\<close> and the \<^verbatim>\<open>pytz\<close> zone objects.
  A \<^verbatim>\<open>datetime\<close> stores civil fields (year ... microsecond) and an optional
  \<^verbatim>\<open>tzinfo\<close>.  The civil fields are represented by the number of microseconds between
  1970-01-01T00:00:00 and the instant the fields name on the proleptic Gregorian calendar
  (a bijection with the fields); the zone is kept beside it, as Python does.
\<close>

datatype py_error = OverflowError | ValueError | TypeError

datatype timezone =
    UTC
  | Chicago
  | Chicago_local int
  | Fixed_offset int

record datetime =
  wall :: int
  tzinfo :: "timezone option"

definition us_per_day :: int where
  "us_per_day = 86400000000"

text \<open>
  \<^verbatim>\<open>datetime.min\<close> is 0001-01-01T00:00:00 (ordinal 1) and \<^verbatim>\<open>datetime.max\<close> is
  9999-12-31T23:59:59.999999 (ordinal 3652059); 1970-01-01 has ordinal 719163.
\<close>

definition min_wall :: int where
  "min_wall = - 719162 * 86400000000"

definition max_wall :: int where
  "max_wall = 2932897 * 86400000000 - 1"

text \<open>
  The offset a zone object reports for a datetime that carries it.  The object
  \<^verbatim>\<open>pytz.timezone('America/Chicago')\<close> itself (not one of its localized variants) reports
  the first entry of its transition table, local mean time, rounded by pytz to whole
  minutes: minus 5 hours 51 minutes, whatever the date.  The localized variants that
  \<^verbatim>\<open>astimezone\<close> attaches carry the offset in force at the instant.
\<close>

fun utcoffset :: "timezone \<Rightarrow> int" where
  "utcoffset UTC = 0"
| "utcoffset Chicago = - 21060 * 1000000"
| "utcoffset (Chicago_local off) = off"
| "utcoffset (Fixed_offset off) = off"

text \<open>The absolute instant of an aware datetime, in microseconds since the Unix epoch.\<close>

definition instant :: "datetime \<Rightarrow> int" where
  "instant dt = (case tzinfo dt of None \<Rightarrow> wall dt | Some z \<Rightarrow> wall dt - utcoffset z)"

text \<open>
  \<^verbatim>\<open>timedelta(days, seconds, microseconds, minutes, hours, weeks)\<close>: a duration in
  microseconds; the constructor raises OverflowError when the normalised day count leaves
  \<open>\<plusminus>999999999\<close>.
\<close>

definition timedelta :: "int \<Rightarrow> int \<Rightarrow> int \<Rightarrow> int \<Rightarrow> int \<Rightarrow> int \<Rightarrow> py_error + int" where
  "timedelta days seconds microseconds minutes hours weeks =
     (let total = (((weeks * 7 + days) * 24 + hours) * 60 + minutes) * 60 * 1000000
                  + seconds * 1000000 + microseconds
      in if \<bar>total div us_per_day\<bar> \<le> 999999999 then Inr total else Inl OverflowError)"

text \<open>
  \<^verbatim>\<open>datetime + timedelta\<close> and \<^verbatim>\<open>datetime - timedelta\<close> work on the civil fields, keep the
  \<^verbatim>\<open>tzinfo\<close> and raise OverflowError outside years 1 to 9999.
\<close>

definition datetime_add :: "datetime \<Rightarrow> int \<Rightarrow> py_error + datetime" where
  "datetime_add dt td =
     (if min_wall \<le> wall dt + td \<and> wall dt + td \<le> max_wall
      then Inr (dt\<lparr>wall := wall dt + td\<rparr>) else Inl OverflowError)"

definition datetime_sub :: "datetime \<Rightarrow> int \<Rightarrow> py_error + datetime" where
  "datetime_sub dt td =
     (if min_wall \<le> wall dt - td \<and> wall dt - td \<le> max_wall
      then Inr (dt\<lparr>wall := wall dt - td\<rparr>) else Inl OverflowError)"

text \<open>\<^verbatim>\<open>weekday()\<close>: Monday is 0, Sunday is 6; 1970-01-01 was a Thursday.\<close>

definition weekday :: "datetime \<Rightarrow> int" where
  "weekday dt = (wall dt div us_per_day + 3) mod 7"

text \<open>\<^verbatim>\<open>replace(hour=0, minute=0, second=0, microsecond=0)\<close>.\<close>

definition replace_midnight :: "datetime \<Rightarrow> datetime" where
  "replace_midnight dt = dt\<lparr>wall := wall dt - wall dt mod us_per_day\<rparr>"

section \<open>The week windower\<close>

text \<open>
  \<^verbatim>\<open>get_week_boundaries(end_date, num_weeks)\<close>.  The loop over \<^verbatim>\<open>range(num_weeks)\<close> appends
  one pair per index; an exception in any iteration leaves the function.
\<close>

fun week_loop :: "datetime \<Rightarrow> int list \<Rightarrow> (datetime \<times> datetime) list
                    \<Rightarrow> py_error + (datetime \<times> datetime) list" where
  "week_loop last_sunday [] weeks = Inr weeks"
| "week_loop last_sunday (i # rest) weeks =
     (case timedelta 0 0 0 0 0 i of
        Inl e \<Rightarrow> Inl e
      | Inr back \<Rightarrow>
         (case datetime_sub last_sunday back of
            Inl e \<Rightarrow> Inl e
          | Inr week_start \<Rightarrow>
             (case timedelta 6 59 999999 59 23 0 of
                Inl e \<Rightarrow> Inl e
              | Inr width \<Rightarrow>
                 (case datetime_add week_start width of
                    Inl e \<Rightarrow> Inl e
                  | Inr week_end \<Rightarrow>
                      week_loop last_sunday rest (weeks @ [(week_start, week_end)])))))"

definition get_week_boundaries :: "datetime \<Rightarrow> int \<Rightarrow> py_error + (datetime \<times> datetime) list" where
  "get_week_boundaries end_date0 num_weeks =
     (let end_date = end_date0\<lparr>tzinfo := Some Chicago\<rparr>;
          days_since_sunday = (weekday end_date - 6) mod 7
      in case (if days_since_sunday = 0 then Inr end_date
               else case timedelta days_since_sunday 0 0 0 0 0 of
                      Inl e \<Rightarrow> Inl e
                    | Inr back \<Rightarrow> datetime_sub end_date back) of
           Inl e \<Rightarrow> Inl e
         | Inr last_sunday \<Rightarrow>
             week_loop (replace_midnight last_sunday) [0 .. num_weeks - 1] [])"

text \<open>
  Names for the two durations of the loop body and for the civil position of the Sunday
  the windows are anchored at; they are used to state and prove the properties below.
\<close>

definition week_us :: int where
  "week_us = 604800000000"

definition week_width :: int where
  "week_width = 604799999999"

definition valid_datetime :: "datetime \<Rightarrow> bool" where
  "valid_datetime dt = (min_wall \<le> wall dt \<and> wall dt \<le> max_wall)"

definition sunday_wall :: "datetime \<Rightarrow> int" where
  "sunday_wall now = (wall now div us_per_day - (weekday now - 6) mod 7) * us_per_day"

definition week_ok :: "int \<Rightarrow> int \<Rightarrow> bool" where
  "week_ok s i = (\<bar>7 * i\<bar> \<le> 999999999 \<and> min_wall \<le> s - i * week_us
                   \<and> s - i * week_us + week_width \<le> max_wall)"

definition week_of :: "datetime \<Rightarrow> int \<Rightarrow> datetime \<times> datetime" where
  "week_of ls i = (ls\<lparr>wall := wall ls - i * week_us\<rparr>,
                   ls\<lparr>wall := wall ls - i * week_us + week_width\<rparr>)"

section \<open>Floating-point numbers\<close>

text \<open>
  A Python \<^verbatim>\<open>float\<close> is an IEEE binary64 number: a real number with a 53-bit significand, an
  infinity, or a NaN.  Finite values are modelled by the real number they denote.
  \<open>round_to_double\<close> is rounding to the nearest binary64 number, ties to even: the
  spacing of the binary64 numbers around \<open>x\<close> is \<open>2\<^sup>e\<^sup>-\<^sup>5\<^sup>2\<close> for the exponent \<open>e\<close> of \<open>x\<close>, and
  \<open>2\<^sup>-\<^sup>1\<^sup>0\<^sup>7\<^sup>4\<close> in the subnormal range.  Overflow to infinity is not part of it; it does not
  occur for the magnitudes the program feeds it (quotients of 13-digit integers by 1000,
  fractions of a second scaled by one million, sums and quotients of prices up to 1000).
\<close>

datatype pyfloat = Finite real | Pos_inf | Neg_inf | NaN

definition round_half_even :: "real \<Rightarrow> int" where
  "round_half_even x =
     (let f = \<lfloor>x\<rfloor>; r = x - of_int f
      in if r < 1 / 2 then f else if 1 / 2 < r then f + 1 else if even f then f else f + 1)"

text \<open>The exponent \<open>e\<close> with \<open>2\<^sup>e \<le> x < 2\<^sup>e\<^sup>+\<^sup>1\<close>, for positive \<open>x\<close>.\<close>

definition binary_exponent :: "real \<Rightarrow> int" where
  "binary_exponent x = (if 1 \<le> x then bitlen \<lfloor>x\<rfloor> - 1 else - bitlen (\<lceil>1 / x\<rceil> - 1))"

definition pow2 :: "int \<Rightarrow> real" where
  "pow2 e = (if 0 \<le> e then 2 ^ nat e else 1 / 2 ^ nat (- e))"

definition round_to_double :: "real \<Rightarrow> real" where
  "round_to_double x =
     (if x = 0 then 0
      else let u = pow2 (max (binary_exponent \<bar>x\<bar> - 52) (- 1074))
           in sgn x * of_int (round_half_even (\<bar>x\<bar> / u)) * u)"

text \<open>
  \<^verbatim>\<open>float(n)\<close> for an \<^verbatim>\<open>int\<close>: the nearest binary64 number; OverflowError when that would be
  infinite, that is from \<open>2\<^sup>1\<^sup>0\<^sup>2\<^sup>4 - 2\<^sup>9\<^sup>7\<^sup>0\<close> on.
\<close>

definition float_of_int :: "int \<Rightarrow> py_error + pyfloat" where
  "float_of_int n =
     (if \<bar>n\<bar> < 2 ^ 1024 - 2 ^ 970 then Inr (Finite (round_to_double (of_int n)))
      else Inl OverflowError)"

section \<open>The aggregator\<close>

text \<open>
  \<^verbatim>\<open>create_weekly_chart(df, week_start, week_end, ...)\<close> filters the frame with
  \<^verbatim>\<open>(df['Time'] >= week_start) & (df['Time'] <= week_end)\<close>, returns \<^verbatim>\<open>(None, None)\<close> when
  no row is left, and otherwise the figure and a dictionary of statistics.  The frame is a
  list of rows (time, price); its times are timezone-aware, so a comparison is one of
  absolute instants.  Its prices are binary64 numbers between 0 and 1000, as the parser
  leaves them, and the statistics are computed in binary64 arithmetic.  The figure is
  presentation and is left out.
\<close>

type_synonym dataframe = "(datetime \<times> real) list"

definition in_week :: "datetime \<Rightarrow> datetime \<times> datetime \<Rightarrow> bool" where
  "in_week t w = (instant t \<ge> instant (fst w) \<and> instant t \<le> instant (snd w))"

definition week_data :: "dataframe \<Rightarrow> datetime \<Rightarrow> datetime \<Rightarrow> dataframe" where
  "week_data df week_start week_end = filter (\<lambda>row. in_week (fst row) (week_start, week_end)) df"

record weekly_stats =
  avg_price :: real
  median_price :: real
  min_price :: real
  max_price :: real
  total_points :: nat

text \<open>
  \<^verbatim>\<open>Series.mean()\<close>: the float sum of the column divided, in binary64, by the number of
  values.  The order in which the array library adds the values (in blocks and pairwise, or
  one after the other) decides the last bits of that sum and is not fixed by the program:
  the summation \<open>column_sum\<close> is a parameter of the model.
\<close>

definition series_mean :: "(real list \<Rightarrow> real) \<Rightarrow> real list \<Rightarrow> real" where
  "series_mean column_sum xs = round_to_double (column_sum xs / real (length xs))"

text \<open>
  \<^verbatim>\<open>Series.median()\<close> as numpy computes it: order the values, then take the mean of the
  slice holding the middle element (odd size) or the two middle elements (even size).  The
  mean of such a slice is the float sum of its one or two values divided by their number.
  (A slice of another size does not occur.)
\<close>

definition middle_mean :: "real list \<Rightarrow> real" where
  "middle_mean ms =
     (case ms of
        [a] \<Rightarrow> round_to_double (a / 1)
      | [a, b] \<Rightarrow> round_to_double (round_to_double (a + b) / 2)
      | _ \<Rightarrow> 0)"

definition series_median :: "real list \<Rightarrow> real" where
  "series_median xs =
     (let part = sort xs; sz = length part; index = sz div 2
      in if sz mod 2 = 0 then middle_mean (take 2 (drop (index - 1) part))
         else middle_mean (take 1 (drop index part)))"

definition create_weekly_chart ::
    "(real list \<Rightarrow> real) \<Rightarrow> dataframe \<Rightarrow> datetime \<Rightarrow> datetime \<Rightarrow> weekly_stats option" where
  "create_weekly_chart column_sum df week_start week_end =
     (let wd = week_data df week_start week_end
      in if length wd = 0 then None
         else Some \<lparr>avg_price = series_mean column_sum (map snd wd),
                     median_price = series_median (map snd wd),
                     min_price = Min (set (map snd wd)),
                     max_price = Max (set (map snd wd)),
                     total_points = length wd\<rparr>)"

text \<open>
  The median as the specification words it: the middle value of the ordered prices, the
  average of the two middle values on an even count.  \<open>standard_median\<close> is that number
  itself; \<open>binary64_median\<close> is the same rule with the average taken in binary64
  arithmetic, the sum and the half each rounded to the nearest binary64 number.
\<close>

definition standard_median :: "real list \<Rightarrow> real" where
  "standard_median xs =
     (let s = sort xs; n = length s
      in if even n then (s ! (n div 2 - 1) + s ! (n div 2)) / 2 else s ! (n div 2))"

definition binary64_median :: "real list \<Rightarrow> real" where
  "binary64_median xs =
     (let s = sort xs; n = length s
      in if even n
         then round_to_double (round_to_double (s ! (n div 2 - 1) + s ! (n div 2)) / 2)
         else s ! (n div 2))"

text \<open>
  A summation for the closed examples: the values are added one after the other, each sum
  rounded.  For one or two values every order of addition gives this result.
\<close>

definition sequential_sum :: "real list \<Rightarrow> real" where
  "sequential_sum xs = foldl (\<lambda>acc x. round_to_double (acc + x)) 0 xs"

section \<open>Payloads and the library\<close>

text \<open>
  A decoded JSON payload.  Text is a list of characters, each standing for a code point
  below 256; a dictionary is the list of its items, looked up by key.
\<close>

datatype json =
    JNull
  | JBool bool
  | JInt int
  | JFloat pyfloat
  | JStr string
  | JList "json list"
  | JDict "(string \<times> json) list"

text \<open>
  The functions of the Python library and of pytz whose results the program only passes on
  are parameters of the model:
  \<^item> \<open>chicago_table\<close>: the table of \<^verbatim>\<open>pytz.timezone('America/Chicago')\<close>, giving for a UTC
    time (microseconds since the epoch) the offset in force, in microseconds;
  \<^item> \<open>strptime\<close> and \<open>fromisoformat\<close>: the two parsers of \<^verbatim>\<open>datetime\<close>;
  \<^item> \<open>float_of_str\<close>: \<^verbatim>\<open>float(s)\<close> for text, \<open>None\<close> when it raises ValueError;
  \<^item> \<open>str_of_value\<close>: \<^verbatim>\<open>str(x)\<close> for a float, a boolean, a list or a dictionary.
\<close>

record library =
  chicago_table :: "int \<Rightarrow> int"
  strptime :: "string \<Rightarrow> string \<Rightarrow> py_error + datetime"
  fromisoformat :: "string \<Rightarrow> py_error + datetime"
  float_of_str :: "string \<Rightarrow> pyfloat option"
  str_of_value :: "json \<Rightarrow> string"

section \<open>The timestamp normalizer\<close>

text \<open>
  \<^verbatim>\<open>str.isdigit\<close> accepts, below code point 256, the ten ASCII digits and the superscripts
  two, three and one; \<^verbatim>\<open>int\<close> accepts only the former and raises ValueError on the latter.
\<close>

definition ascii_digit :: "char \<Rightarrow> bool" where
  "ascii_digit c = (48 \<le> (of_char c :: nat) \<and> (of_char c :: nat) \<le> 57)"

definition isdigit :: "string \<Rightarrow> bool" where
  "isdigit s = (s \<noteq> [] \<and> list_all (\<lambda>c. ascii_digit c \<or> (of_char c :: nat) \<in> {178, 179, 185}) s)"

definition int_of_digits :: "string \<Rightarrow> py_error + int" where
  "int_of_digits s =
     (if s \<noteq> [] \<and> list_all ascii_digit s
      then Inr (fold (\<lambda>c a. a * 10 + (int (of_char c) - 48)) s 0)
      else Inl ValueError)"

text \<open>
  \<^verbatim>\<open>datetime.utcfromtimestamp(t)\<close>: the timestamp is split into its integral and fractional
  part, the fraction is scaled to microseconds in floating point and rounded half to even;
  the result is a naive datetime.
\<close>

definition utcfromtimestamp :: "real \<Rightarrow> py_error + datetime" where
  "utcfromtimestamp t =
     (let intpart = (if 0 \<le> t then \<lfloor>t\<rfloor> else \<lceil>t\<rceil>);
          floatpart = round_half_even (round_to_double ((t - of_int intpart) * 1000000));
          w = (if 1000000 \<le> floatpart then (intpart + 1) * 1000000 + (floatpart - 1000000)
               else if floatpart < 0 then (intpart - 1) * 1000000 + (floatpart + 1000000)
               else intpart * 1000000 + floatpart)
      in if min_wall \<le> w \<and> w \<le> max_wall then Inr \<lparr>wall = w, tzinfo = None\<rparr>
         else Inl OverflowError)"

text \<open>
  \<^verbatim>\<open>dt.astimezone(chicago_tz)\<close> for an aware datetime: the UTC time is computed, then the
  zone adds the offset its table gives for that time and attaches the matching localized
  variant.  Both steps raise OverflowError outside years 1 to 9999.
\<close>

definition astimezone :: "(int \<Rightarrow> int) \<Rightarrow> datetime \<Rightarrow> py_error + datetime" where
  "astimezone table dt =
     (case tzinfo dt of
        None \<Rightarrow> Inl TypeError
      | Some z \<Rightarrow>
         (let utc = wall dt - utcoffset z
          in if min_wall \<le> utc \<and> utc \<le> max_wall
                \<and> min_wall \<le> utc + table utc \<and> utc + table utc \<le> max_wall
             then Inr \<lparr>wall = utc + table utc, tzinfo = Some (Chicago_local (table utc))\<rparr>
             else Inl OverflowError))"

definition replace_Z :: "string \<Rightarrow> string" where
  "replace_Z s = concat (map (\<lambda>c. if c = CHR ''Z'' then ''+00:00'' else [c]) s)"

text \<open>
  \<^verbatim>\<open>convert_to_chicago_time(timestamp_str)\<close>; every exception inside is caught and turned
  into \<^verbatim>\<open>None\<close>.
\<close>

definition convert_to_chicago_time :: "library \<Rightarrow> string \<Rightarrow> datetime option" where
  "convert_to_chicago_time lib timestamp_str =
     (case (if isdigit timestamp_str \<and> length timestamp_str = 13 then
              (case int_of_digits timestamp_str of
                 Inl e \<Rightarrow> Inl e
               | Inr ms \<Rightarrow>
                  (let timestamp_seconds = round_to_double (of_int ms / 1000)
                   in case utcfromtimestamp timestamp_seconds of
                        Inl e \<Rightarrow> Inl e
                      | Inr dt \<Rightarrow> Inr (dt\<lparr>tzinfo := Some UTC\<rparr>)))
            else if length timestamp_str = 14 then strptime lib timestamp_str ''%Y%m%d%H%M%S''
            else if length timestamp_str = 12 then strptime lib timestamp_str ''%Y%m%d%H%M''
            else fromisoformat lib (replace_Z timestamp_str)) of
        Inl e \<Rightarrow> None
      | Inr dt0 \<Rightarrow>
         (let dt = (if tzinfo dt0 = None then dt0\<lparr>tzinfo := Some UTC\<rparr> else dt0)
          in case astimezone (chicago_table lib) dt of
               Inl e \<Rightarrow> None
             | Inr chicago_time \<Rightarrow> Some chicago_time))"

section \<open>The feed parser\<close>

text \<open>Truth value of a decoded JSON value, as \<^verbatim>\<open>if x\<close> and \<^verbatim>\<open>not x\<close> test it.\<close>

fun truthy :: "json \<Rightarrow> bool" where
  "truthy JNull = False"
| "truthy (JBool b) = b"
| "truthy (JInt n) = (n \<noteq> 0)"
| "truthy (JFloat x) = (x \<noteq> Finite 0)"
| "truthy (JStr s) = (s \<noteq> [])"
| "truthy (JList xs) = (xs \<noteq> [])"
| "truthy (JDict d) = (d \<noteq> [])"

text \<open>\<^verbatim>\<open>str(n)\<close> for an integer.\<close>

function str_of_nonneg :: "int \<Rightarrow> string" where
  "str_of_nonneg n = (if n < 10 then [''0123456789'' ! nat n]
                      else str_of_nonneg (n div 10) @ [''0123456789'' ! nat (n mod 10)])"
  by pat_completeness auto
termination
  by (relation "measure nat") auto

declare str_of_nonneg.simps [simp del]

definition str_of_int :: "int \<Rightarrow> string" where
  "str_of_int i = (if i < 0 then CHR ''-'' # str_of_nonneg (- i) else str_of_nonneg i)"

definition py_str :: "library \<Rightarrow> json \<Rightarrow> string" where
  "py_str lib v = (case v of JStr s \<Rightarrow> s | JInt n \<Rightarrow> str_of_int n | JNull \<Rightarrow> ''None''
                   | _ \<Rightarrow> str_of_value lib v)"

text \<open>\<^verbatim>\<open>float(x)\<close> for a decoded JSON value.\<close>

definition py_float :: "library \<Rightarrow> json \<Rightarrow> py_error + pyfloat" where
  "py_float lib v =
     (case v of
        JNull \<Rightarrow> Inl TypeError
      | JBool b \<Rightarrow> Inr (Finite (if b then 1 else 0))
      | JInt n \<Rightarrow> float_of_int n
      | JFloat x \<Rightarrow> Inr x
      | JStr s \<Rightarrow> (case float_of_str lib s of None \<Rightarrow> Inl ValueError | Some x \<Rightarrow> Inr x)
      | JList xs \<Rightarrow> Inl TypeError
      | JDict d \<Rightarrow> Inl TypeError)"

definition container_keys :: "string list" where
  "container_keys = [''data'', ''prices'', ''feed'', ''results'', ''items'']"

definition ts_fields :: "string list" where
  "ts_fields = [''millisUTC'', ''timestamp'', ''time'', ''date'', ''datetime'']"

definition price_fields :: "string list" where
  "price_fields = [''price'', ''value'', ''cost'', ''rate'']"

text \<open>
  The three search loops.  \<open>find_items\<close> stops at the first known key that holds a list;
  \<open>find_timestamp\<close> at the first timestamp field present (\<^verbatim>\<open>None\<close>, here \<open>JNull\<close>, when
  there is none); \<open>find_price\<close> at the first price field whose value \<^verbatim>\<open>float\<close> converts,
  passing over ValueError and TypeError and letting any other exception through.
\<close>

fun find_items :: "string list \<Rightarrow> (string \<times> json) list \<Rightarrow> json list" where
  "find_items [] d = []"
| "find_items (key # keys) d =
     (case map_of d key of Some (JList xs) \<Rightarrow> xs | _ \<Rightarrow> find_items keys d)"

fun find_timestamp :: "string list \<Rightarrow> (string \<times> json) list \<Rightarrow> json" where
  "find_timestamp [] item = JNull"
| "find_timestamp (ts_field # rest) item =
     (case map_of item ts_field of Some v \<Rightarrow> v | None \<Rightarrow> find_timestamp rest item)"

fun find_price :: "library \<Rightarrow> string list \<Rightarrow> (string \<times> json) list \<Rightarrow> py_error + pyfloat option" where
  "find_price lib [] item = Inr None"
| "find_price lib (price_field # rest) item =
     (case map_of item price_field of
        None \<Rightarrow> find_price lib rest item
      | Some v \<Rightarrow>
         (case py_float lib v of
            Inr x \<Rightarrow> Inr (Some x)
          | Inl e \<Rightarrow> if e = ValueError \<or> e = TypeError then find_price lib rest item
                     else Inl e))"

text \<open>
  The body of the loop over the items for one dictionary item: what it appends to
  \<^verbatim>\<open>times\<close> and \<^verbatim>\<open>prices\<close>, if anything.
\<close>

definition in_price_range :: "pyfloat \<Rightarrow> bool" where
  "in_price_range price = (case price of Finite x \<Rightarrow> 0 \<le> x \<and> x \<le> 1000 | _ \<Rightarrow> False)"

definition price_value :: "pyfloat \<Rightarrow> real" where
  "price_value price = (case price of Finite x \<Rightarrow> x | _ \<Rightarrow> 0)"

definition item_observation :: "library \<Rightarrow> (string \<times> json) list
                                  \<Rightarrow> py_error + (datetime \<times> real) option" where
  "item_observation lib item =
     (let timestamp = find_timestamp ts_fields item
      in case find_price lib price_fields item of
           Inl e \<Rightarrow> Inl e
         | Inr price \<Rightarrow>
            (case price of
               None \<Rightarrow> Inr None
             | Some p \<Rightarrow>
                 if truthy timestamp then
                   (case convert_to_chicago_time lib (py_str lib timestamp) of
                      None \<Rightarrow> Inr None
                    | Some chicago_time \<Rightarrow>
                        if in_price_range p then Inr (Some (chicago_time, price_value p))
                        else Inr None)
                 else Inr None))"

fun items_loop :: "library \<Rightarrow> json list \<Rightarrow> datetime list \<Rightarrow> real list
                     \<Rightarrow> py_error + (datetime list \<times> real list)" where
  "items_loop lib [] tms prs = Inr (tms, prs)"
| "items_loop lib (JDict item # rest) tms prs =
     (case item_observation lib item of
        Inl e \<Rightarrow> Inl e
      | Inr None \<Rightarrow> items_loop lib rest tms prs
      | Inr (Some (t, p)) \<Rightarrow> items_loop lib rest (tms @ [t]) (prs @ [p]))"
| "items_loop lib (other # rest) tms prs = items_loop lib rest tms prs"

text \<open>
  \<^verbatim>\<open>process_data_for_plotting(data)\<close>.  The function returns either the error tuple
  \<^verbatim>\<open>(None, None, None, message)\<close> or \<^verbatim>\<open>(times, prices, len(items), None)\<close>, or it is left by an
  exception.  \<^verbatim>\<open>sorted\<close> orders the pairs by time, then by price, and is stable; aware
  datetimes compare by their instants.
\<close>

datatype message =
    No_data_received
  | Unexpected_data_format
  | No_valid_data_points nat

definition process_data_for_plotting ::
    "library \<Rightarrow> json \<Rightarrow> py_error + (message + datetime list \<times> real list \<times> nat)" where
  "process_data_for_plotting lib data =
     (if \<not> truthy data then Inr (Inl No_data_received)
      else case (case data of
                   JList xs \<Rightarrow> Some xs
                 | JDict d \<Rightarrow> Some (let items = find_items container_keys d
                                      in if items = [] then [data] else items)
                 | _ \<Rightarrow> None) of
             None \<Rightarrow> Inr (Inl Unexpected_data_format)
           | Some items \<Rightarrow>
              (case items_loop lib items [] [] of
                 Inl e \<Rightarrow> Inl e
               | Inr (tms, prs) \<Rightarrow>
                  if tms = [] \<or> prs = [] then
                    Inr (Inl (No_valid_data_points (length items)))
                  else
                    (let sorted_data = sort_key (\<lambda>(t, p). (instant t, p)) (zip tms prs)
                     in Inr (Inr (map fst sorted_data, map snd sorted_data, length items)))))"

text \<open>The list of candidate items of a payload, \<open>None\<close> for an unrecognised shape.\<close>

definition payload_items :: "json \<Rightarrow> json list option" where
  "payload_items data =
     (case data of
        JList xs \<Rightarrow> Some xs
      | JDict d \<Rightarrow> Some (let items = find_items container_keys d
                           in if items = [] then [data] else items)
      | _ \<Rightarrow> None)"

section \<open>A library instance for closed examples\<close>

text \<open>
  The examples below are evaluated with a concrete library.  Its zone table is the part of
  the America/Chicago table that covers 2024: daylight time (UTC-5) from 2024-03-10 08:00
  UTC to 2024-11-03 07:00 UTC, standard time (UTC-6) around it.  None of the examples
  reaches the text parsers or \<^verbatim>\<open>str\<close> of a composite value, which are left trivial here;
  the theorems themselves hold for every library.
\<close>

definition chicago_2024 :: "int \<Rightarrow> int" where
  "chicago_2024 utc = (if 1710057600000000 \<le> utc \<and> utc < 1730617200000000
                       then - 18000000000 else - 21600000000)"

definition sample_library :: library where
  "sample_library = \<lparr>chicago_table = chicago_2024,
                      strptime = (\<lambda>s fmt. Inl ValueError),
                      fromisoformat = (\<lambda>s. Inl ValueError),
                      float_of_str = (\<lambda>s. None),
                      str_of_value = (\<lambda>v. [])\<rparr>"

section \<open>Properties of the week windower\<close>

lemma timedelta_weeks: "timedelta 0 0 0 0 0 i = (if \<bar>7 * i\<bar> \<le> 999999999 then Inr (i * week_us) else Inl OverflowError)"
  by (simp add: timedelta_def us_per_day_def week_us_def Let_def)

lemma timedelta_width: "timedelta 6 59 999999 59 23 0 = Inr week_width"
  by (simp add: timedelta_def us_per_day_def week_width_def Let_def)

lemma timedelta_days: "0 \<le> k \<Longrightarrow> k \<le> 6 \<Longrightarrow> timedelta k 0 0 0 0 0 = Inr (k * us_per_day)"
  by (simp add: timedelta_def us_per_day_def Let_def)

lemma week_loop_eq:
  "week_loop ls is acc = (if \<forall>i\<in>set is. week_ok (wall ls) i then Inr (acc @ map (week_of ls) is) else Inl OverflowError)"
proof (induction "is" arbitrary: acc)
  case Nil
  then show ?case by simp
next
  case (Cons i rest)
  have w: "(0::int) \<le> week_width" by (simp add: week_width_def)
  show ?case
    using w by (auto simp add: timedelta_weeks timedelta_width datetime_sub_def datetime_add_def Cons.IH week_ok_def week_of_def)
qed

lemma sunday_wall_props:
  "sunday_wall now \<le> wall now" "wall now < sunday_wall now + week_us"
  "sunday_wall now mod us_per_day = 0" "(sunday_wall now div us_per_day + 3) mod 7 = 6"
proof -
  define D where "D = wall now div us_per_day"
  define k where "k = (weekday now - 6) mod 7"
  have k: "0 \<le> k" "k \<le> 6" by (simp_all add: k_def)
  have s: "sunday_wall now = (D - k) * us_per_day" by (simp add: sunday_wall_def D_def k_def)
  have "wall now = D * us_per_day + wall now mod us_per_day" by (simp add: D_def)
  moreover have "0 \<le> wall now mod us_per_day" "wall now mod us_per_day < us_per_day"
    by (simp_all add: us_per_day_def)
  ultimately have d1: "D * us_per_day \<le> wall now" "wall now < D * us_per_day + us_per_day"
    by linarith+
  show "sunday_wall now \<le> wall now" using d1 k unfolding s us_per_day_def by (simp add: algebra_simps)
  show "wall now < sunday_wall now + week_us" using d1 k unfolding s us_per_day_def week_us_def by (simp add: algebra_simps)
  show "sunday_wall now mod us_per_day = 0" unfolding s by simp
  have "sunday_wall now div us_per_day = D - k" unfolding s by (simp add: us_per_day_def)
  moreover have "\<And>E::int. (E - ((E + 3) mod 7 - 6) mod 7 + 3) mod 7 = 6" by presburger
  then have "(D - k + 3) mod 7 = 6" unfolding k_def weekday_def D_def by simp
  ultimately show "(sunday_wall now div us_per_day + 3) mod 7 = 6" by simp
qed

lemma midnight_eq: "w - w mod us_per_day = (w div us_per_day) * us_per_day"
  by (simp add: minus_mod_eq_div_mult)

lemma min_wall_day: "min_wall \<le> D * us_per_day \<longleftrightarrow> min_wall \<le> D * us_per_day + r" if "0 \<le> r" "r < us_per_day"
proof (cases "- 719162 \<le> D")
  case True
  then show ?thesis using that unfolding min_wall_def us_per_day_def by simp
next
  case False
  then have "D \<le> - 719163" by simp
  then show ?thesis using that unfolding min_wall_def us_per_day_def by simp
qed

lemma gwb_eq:
  assumes "valid_datetime now"
  shows "get_week_boundaries now n =
     (if min_wall \<le> sunday_wall now \<and> (\<forall>i\<in>set [0..n - 1]. week_ok (sunday_wall now) i)
      then Inr (map (week_of \<lparr>wall = sunday_wall now, tzinfo = Some Chicago\<rparr>) [0..n - 1])
      else Inl OverflowError)"
proof -
  define D where "D = wall now div us_per_day"
  define k where "k = (weekday now - 6) mod 7"
  define r where "r = wall now mod us_per_day"
  have k: "0 \<le> k" "k \<le> 6" by (simp_all add: k_def)
  have r: "0 \<le> r" "r < us_per_day" by (simp_all add: r_def us_per_day_def)
  have w: "wall now = D * us_per_day + r" by (simp add: D_def r_def)
  have s: "sunday_wall now = (D - k) * us_per_day" by (simp add: sunday_wall_def D_def k_def)
  have wk: "weekday (now\<lparr>tzinfo := Some Chicago\<rparr>) = weekday now" by (simp add: weekday_def)
  have sub: "wall now - k * us_per_day = (D - k) * us_per_day + r" by (simp add: w algebra_simps)
  have dv: "(wall now - k * us_per_day) div us_per_day = D - k"
    unfolding sub using r by (simp add: us_per_day_def)
  have mn: "min_wall \<le> sunday_wall now \<longleftrightarrow> min_wall \<le> wall now - k * us_per_day"
    unfolding s sub using min_wall_day[OF r] by simp
  have mx: "wall now - k * us_per_day \<le> max_wall"
    using assms k by (simp add: valid_datetime_def us_per_day_def)
  show ?thesis
  proof (cases "k = 0")
    case True
    have "min_wall \<le> sunday_wall now" using mn True assms by (simp add: valid_datetime_def)
    moreover have "replace_midnight (now\<lparr>tzinfo := Some Chicago\<rparr>) = \<lparr>wall = sunday_wall now, tzinfo = Some Chicago\<rparr>"
      using True by (simp add: replace_midnight_def midnight_eq s D_def)
    ultimately show ?thesis
      using True by (simp add: get_week_boundaries_def Let_def wk k_def[symmetric] week_loop_eq)
  next
    case False
    have rm: "replace_midnight (now\<lparr>tzinfo := Some Chicago, wall := wall now - k * us_per_day\<rparr>) = \<lparr>wall = sunday_wall now, tzinfo = Some Chicago\<rparr>"
      by (simp add: replace_midnight_def midnight_eq s dv)
    show ?thesis
      using False k mx mn rm
      by (simp add: get_week_boundaries_def Let_def wk k_def[symmetric] week_loop_eq timedelta_days datetime_sub_def)
  qed
qed

lemma gwb_shape:
  assumes "get_week_boundaries now n = Inr ws"
  shows "\<exists>ls. tzinfo ls = Some Chicago \<and> ws = map (week_of ls) [0..n - 1]"
proof -
  define e where "e = now\<lparr>tzinfo := Some Chicago\<rparr>"
  define k where "k = (weekday e - 6) mod 7"
  obtain l where l: "(if k = 0 then Inr e else case timedelta k 0 0 0 0 0 of Inl x \<Rightarrow> Inl x | Inr back \<Rightarrow> datetime_sub e back) = Inr l"
    and w: "week_loop (replace_midnight l) [0..n - 1] [] = Inr ws"
    using assms unfolding get_week_boundaries_def Let_def e_def[symmetric] k_def[symmetric]
    by (auto split: sum.splits)
  have "tzinfo l = Some Chicago"
    using l by (auto simp: e_def datetime_sub_def split: if_splits sum.splits)
  then have "tzinfo (replace_midnight l) = Some Chicago" by (simp add: replace_midnight_def)
  moreover have "ws = map (week_of (replace_midnight l)) [0..n - 1]"
    using w by (simp add: week_loop_eq split: if_splits)
  ultimately show ?thesis by blast
qed

lemma week_of_simps:
  "wall (fst (week_of ls i)) = wall ls - i * week_us"
  "wall (snd (week_of ls i)) = wall ls - i * week_us + week_width"
  "tzinfo (fst (week_of ls i)) = tzinfo ls"
  "tzinfo (snd (week_of ls i)) = tzinfo ls"
  by (simp_all add: week_of_def)

lemma instant_week_of:
  "instant (fst (week_of ls i)) = instant ls - i * week_us"
  "instant (snd (week_of ls i)) = instant ls - i * week_us + week_width"
  by (simp_all add: week_of_def instant_def split: option.splits)

lemma upto_nth0: "i < length [0..m] \<Longrightarrow> [0..m] ! i = int i"
  by (simp add: nth_upto)


lemma weeks_bound:
  assumes "min_wall \<le> w - n * week_us" "w + week_width \<le> max_wall"
  shows "n \<le> 600000"
proof (rule ccontr)
  assume "\<not> n \<le> 600000"
  then have "600001 * week_us \<le> n * week_us" by (simp add: week_us_def)
  then show False using assms unfolding week_us_def week_width_def min_wall_def max_wall_def by linarith
qed

lemma gwb_in_range:
  assumes "1 \<le> n" "min_wall \<le> wall now - n * week_us" "wall now + week_width \<le> max_wall"
  shows "get_week_boundaries now n =
           Inr (map (week_of \<lparr>wall = sunday_wall now, tzinfo = Some Chicago\<rparr>) [0..n - 1])"
proof -
  define S where "S = sunday_wall now"
  have v: "valid_datetime now"
    using assms unfolding valid_datetime_def week_us_def week_width_def by linarith
  have S: "S \<le> wall now" "wall now < S + week_us"
    unfolding S_def by (rule sunday_wall_props)+
  have nb: "n \<le> 600000" using weeks_bound[OF assms(2,3)] .
  have ok: "week_ok S i" if "i \<in> set [0..n - 1]" for i
  proof -
    have i: "0 \<le> i" "i \<le> n - 1" using that by simp_all
    then have "i * week_us \<le> (n - 1) * week_us" "0 \<le> i * week_us" by (simp_all add: week_us_def)
    then show ?thesis
      using i nb S assms unfolding week_ok_def week_us_def week_width_def by linarith
  qed
  have m: "min_wall \<le> S" using ok[of 0] assms(1) by (simp add: week_ok_def)
  show ?thesis
    using m ok by (simp add: gwb_eq[OF v] S_def[symmetric])
qed

section \<open>Claims about the week windower\<close>

lemma gwb_overflow:
  assumes "valid_datetime now" "0 \<le> i" "i < n" "\<not> week_ok (sunday_wall now) i"
  shows "get_week_boundaries now n = Inl OverflowError"
proof -
  have "i \<in> set [0..n - 1]" using assms(2,3) by simp
  then have "\<not> (\<forall>i\<in>set [0..n - 1]. week_ok (sunday_wall now) i)" using assms(4) by blast
  then show ?thesis by (simp add: gwb_eq[OF assms(1)])
qed


lemma gwb_eval_mar_2024:
  "get_week_boundaries \<lparr>wall = 1710331200000000, tzinfo = None\<rparr> 2 =
     Inr [(\<lparr>wall = 1710028800000000, tzinfo = Some Chicago\<rparr>,
           \<lparr>wall = 1710633599999999, tzinfo = Some Chicago\<rparr>),
          (\<lparr>wall = 1709424000000000, tzinfo = Some Chicago\<rparr>,
           \<lparr>wall = 1710028799999999, tzinfo = Some Chicago\<rparr>)]"
  by (simp add: get_week_boundaries_def weekday_def us_per_day_def timedelta_def datetime_sub_def
      datetime_add_def replace_midnight_def min_wall_def max_wall_def Let_def upto.simps)

text \<open>
  Claim C2.  As stated (for every instant \<open>now\<close> and every \<open>N \<ge> 1\<close> exactly \<open>N\<close> windows are
  returned) the claim fails: datetimes end at year 1 and year 9999, and a window that would
  start before 0001-01-01 makes the subtraction raise OverflowError.  On 2024-01-10 at noon,
  200000 weeks are asked for; week 199999 would start about 3833 years earlier.
\<close>

theorem week_windows_overflow_counterexample:
  "get_week_boundaries \<lparr>wall = 1704888000000000, tzinfo = None\<rparr> 200000 = Inl OverflowError"
proof (rule gwb_overflow[where i = 199999])
  show "valid_datetime \<lparr>wall = 1704888000000000, tzinfo = None\<rparr>"
    by (simp add: valid_datetime_def min_wall_def max_wall_def)
  show "\<not> week_ok (sunday_wall \<lparr>wall = 1704888000000000, tzinfo = None\<rparr>) 199999"
    by (simp add: week_ok_def sunday_wall_def weekday_def us_per_day_def week_us_def min_wall_def)
qed simp_all

text \<open>
  Claim C2, amended.  Whenever \<open>N \<ge> 1\<close> and both \<open>now\<close> minus \<open>7N\<close> days and \<open>now\<close> plus
  6 days 23:59:59.999999 are representable datetimes, the windower returns exactly \<open>N\<close>
  windows; each ends 6 days 23:59:59.999999 after its start; window \<open>i\<close> (counted from 0)
  starts exactly \<open>7i\<close> days before the first; each window ends one microsecond before the
  start of the window listed before it (contiguous, disjoint, most recent first); all carry
  the zone attached to \<open>now\<close>; and the first window starts on a Sunday at 00:00:00.
\<close>

theorem week_windows_in_range:
  assumes "1 \<le> n" "min_wall \<le> wall now - n * week_us" "wall now + week_width \<le> max_wall"
  shows "\<exists>ws. get_week_boundaries now n = Inr ws \<and> int (length ws) = n
           \<and> weekday (fst (ws ! 0)) = 6
           \<and> wall (fst (ws ! 0)) mod us_per_day = 0
           \<and> (\<forall>i<length ws. wall (snd (ws ! i)) = wall (fst (ws ! i)) + week_width
                   \<and> wall (fst (ws ! i)) = wall (fst (ws ! 0)) - 7 * int i * us_per_day
                   \<and> tzinfo (fst (ws ! i)) = Some Chicago \<and> tzinfo (snd (ws ! i)) = Some Chicago)
           \<and> (\<forall>i. Suc i < length ws \<longrightarrow> wall (snd (ws ! Suc i)) + 1 = wall (fst (ws ! i)))"
proof -
  define S where "S = sunday_wall now"
  define ls where "ls = \<lparr>wall = S, tzinfo = Some Chicago\<rparr>"
  define ws where "ws = map (week_of ls) [0..n - 1]"
  have S: "S mod us_per_day = 0" "(S div us_per_day + 3) mod 7 = 6"
    unfolding S_def by (rule sunday_wall_props)+
  have g: "get_week_boundaries now n = Inr ws"
    unfolding ws_def ls_def S_def by (rule gwb_in_range[OF assms])
  have len: "int (length ws) = n" using assms(1) by (simp add: ws_def)
  have nth: "ws ! i = week_of ls (int i)" if "i < length ws" for i
    using that unfolding ws_def by (simp add: upto_nth0)
  have "0 < length ws" using len assms(1) by linarith
  then have z: "ws ! 0 = week_of ls 0" using nth[of 0] by simp
  have f0: "wall (fst (ws ! 0)) = S" by (simp add: z week_of_simps ls_def)
  have p1: "weekday (fst (ws ! 0)) = 6" unfolding weekday_def f0 by (rule S(2))
  have p2: "wall (fst (ws ! 0)) mod us_per_day = 0" unfolding f0 by (rule S(1))
  have p3: "\<forall>i<length ws. wall (snd (ws ! i)) = wall (fst (ws ! i)) + week_width
                   \<and> wall (fst (ws ! i)) = wall (fst (ws ! 0)) - 7 * int i * us_per_day
                   \<and> tzinfo (fst (ws ! i)) = Some Chicago \<and> tzinfo (snd (ws ! i)) = Some Chicago"
    by (simp add: nth f0 week_of_simps ls_def week_us_def us_per_day_def)
  have p4: "\<forall>i. Suc i < length ws \<longrightarrow> wall (snd (ws ! Suc i)) + 1 = wall (fst (ws ! i))"
  proof (intro allI impI)
    fix i assume a: "Suc i < length ws"
    have "ws ! i = week_of ls (int i)" "ws ! Suc i = week_of ls (int (Suc i))"
      using a nth by simp_all
    then show "wall (snd (ws ! Suc i)) + 1 = wall (fst (ws ! i))"
      by (simp add: week_of_simps week_us_def week_width_def)
  qed
  show ?thesis
    by (rule exI[of _ ws]) (intro conjI g len p1 p2 p3 p4)
qed


theorem week_windows_in_range_witness:
  "(1::int) \<le> 5
   \<and> min_wall \<le> wall \<lparr>wall = 1704888000000000, tzinfo = None\<rparr> - 5 * week_us
   \<and> wall \<lparr>wall = 1704888000000000, tzinfo = None\<rparr> + week_width \<le> max_wall
   \<and> (\<exists>ws. get_week_boundaries \<lparr>wall = 1704888000000000, tzinfo = None\<rparr> 5 = Inr ws
           \<and> int (length ws) = 5 \<and> weekday (fst (ws ! 0)) = 6)"
proof -
  have h1: "(1::int) \<le> 5" by simp
  have h2: "min_wall \<le> wall \<lparr>wall = 1704888000000000, tzinfo = None\<rparr> - 5 * week_us"
    by (simp add: min_wall_def week_us_def)
  have h3: "wall \<lparr>wall = 1704888000000000, tzinfo = None\<rparr> + week_width \<le> max_wall"
    by (simp add: max_wall_def week_width_def)
  show ?thesis
    using h1 h2 h3 week_windows_in_range[OF h1 h2 h3] by blast
qed

text \<open>
  Claim C9.  Every boundary the windower returns carries the zone object attached to \<open>now\<close>,
  whose offset does not depend on the date; so every window spans 6 days 23:59:59.999999 of
  absolute time and consecutive starts are exactly \<open>7 \<times> 24\<close> hours of absolute time apart,
  also across a daylight-saving transition.
\<close>

theorem week_windows_fixed_offset:
  assumes "get_week_boundaries now n = Inr ws"
  shows "(\<forall>w\<in>set ws. tzinfo (fst w) = Some Chicago \<and> tzinfo (snd w) = Some Chicago
            \<and> instant (snd w) - instant (fst w) = week_width)
       \<and> (\<forall>i. Suc i < length ws \<longrightarrow>
             instant (fst (ws ! i)) - instant (fst (ws ! Suc i)) = 7 * 24 * 3600 * 1000000)"
proof -
  obtain ls where ls: "tzinfo ls = Some Chicago" and ws: "ws = map (week_of ls) [0..n - 1]"
    using gwb_shape[OF assms] by blast
  have a: "\<forall>w\<in>set ws. tzinfo (fst w) = Some Chicago \<and> tzinfo (snd w) = Some Chicago
            \<and> instant (snd w) - instant (fst w) = week_width"
    unfolding ws using ls by (auto simp: week_of_simps instant_week_of)
  have b: "instant (fst (ws ! i)) - instant (fst (ws ! Suc i)) = 7 * 24 * 3600 * 1000000"
    if "Suc i < length ws" for i
  proof -
    have "ws ! i = week_of ls (int i)" "ws ! Suc i = week_of ls (int (Suc i))"
      using that unfolding ws by (simp_all add: upto_nth0)
    then show ?thesis by (simp add: instant_week_of week_us_def)
  qed
  show ?thesis using a b by blast
qed


text \<open>The two weeks around the start of daylight saving time on 2024-03-10.\<close>

theorem week_windows_fixed_offset_witness:
  "get_week_boundaries \<lparr>wall = 1710331200000000, tzinfo = None\<rparr> 2 =
     Inr [(\<lparr>wall = 1710028800000000, tzinfo = Some Chicago\<rparr>,
           \<lparr>wall = 1710633599999999, tzinfo = Some Chicago\<rparr>),
          (\<lparr>wall = 1709424000000000, tzinfo = Some Chicago\<rparr>,
           \<lparr>wall = 1710028799999999, tzinfo = Some Chicago\<rparr>)]
   \<and> instant \<lparr>wall = 1710028800000000, tzinfo = Some Chicago\<rparr>
       - instant \<lparr>wall = 1709424000000000, tzinfo = Some Chicago\<rparr> = 7 * 24 * 3600 * 1000000
   \<and> instant \<lparr>wall = 1710633599999999, tzinfo = Some Chicago\<rparr>
       - instant \<lparr>wall = 1710028800000000, tzinfo = Some Chicago\<rparr> = week_width"
  using week_windows_fixed_offset[OF gwb_eval_mar_2024] gwb_eval_mar_2024
  by (simp add: instant_def week_width_def)




text \<open>
  Claim C3.  On Wednesday 2024-01-10 at noon the first window starts at the civil time
  Sunday 2024-01-07 00:00:00, but with the zone object attached by \<^verbatim>\<open>replace\<close>: its absolute
  instant is 05:51:00 UTC, neither 06:00 UTC (midnight under the standard offset, in force
  on that day) nor 05:00 UTC (midnight under the daylight offset).
\<close>

theorem week_anchor_local_mean_time:
  "get_week_boundaries \<lparr>wall = 1704888000000000, tzinfo = None\<rparr> 1 =
     Inr [(\<lparr>wall = 1704585600000000, tzinfo = Some Chicago\<rparr>,
           \<lparr>wall = 1705190399999999, tzinfo = Some Chicago\<rparr>)]
   \<and> instant \<lparr>wall = 1704585600000000, tzinfo = Some Chicago\<rparr> = 1704606660000000
   \<and> instant \<lparr>wall = 1704585600000000, tzinfo = Some Chicago\<rparr>
        \<noteq> 1704585600000000 + 6 * 3600 * 1000000
   \<and> instant \<lparr>wall = 1704585600000000, tzinfo = Some Chicago\<rparr>
        \<noteq> 1704585600000000 + 5 * 3600 * 1000000"
  by (simp add: get_week_boundaries_def weekday_def us_per_day_def timedelta_def datetime_sub_def
      datetime_add_def replace_midnight_def min_wall_def max_wall_def Let_def upto.simps instant_def)

section \<open>Properties of the feed parser\<close>

lemma item_observation_range:
  assumes "item_observation lib item = Inr (Some (t, p))"
  shows "0 \<le> p \<and> p \<le> 1000"
proof -
  obtain x where x: "in_price_range x" "p = price_value x"
    using assms unfolding item_observation_def Let_def
    by (simp split: sum.splits option.splits if_splits)
  then show ?thesis
    by (cases x) (simp_all add: in_price_range_def price_value_def)
qed


lemma items_loop_step:
  "items_loop lib (x # rest) tms prs =
     (case x of
        JDict item \<Rightarrow>
          (case item_observation lib item of
             Inl e \<Rightarrow> Inl e
           | Inr None \<Rightarrow> items_loop lib rest tms prs
           | Inr (Some (t, p)) \<Rightarrow> items_loop lib rest (tms @ [t]) (prs @ [p]))
      | _ \<Rightarrow> items_loop lib rest tms prs)"
  by (cases x) simp_all

lemma items_loop_inv:
  "items_loop lib items tms prs = Inr (tms', prs') \<Longrightarrow> length tms = length prs
     \<Longrightarrow> (\<forall>p\<in>set prs. 0 \<le> p \<and> p \<le> 1000)
     \<Longrightarrow> length tms' = length prs' \<and> (\<forall>p\<in>set prs'. 0 \<le> p \<and> p \<le> 1000)"
proof (induction items arbitrary: tms prs)
  case Nil
  then show ?case by simp
next
  case (Cons x rest)
  show ?case
  proof (cases x)
    case (JDict item)
    show ?thesis
    proof (cases "item_observation lib item")
      case (Inl e)
      then show ?thesis using Cons.prems(1) JDict by simp
    next
      case (Inr r)
      show ?thesis
      proof (cases r)
        case None
        then have "items_loop lib rest tms prs = Inr (tms', prs')"
          using Cons.prems(1) JDict Inr by simp
        then show ?thesis using Cons.IH Cons.prems(2,3) by blast
      next
        case (Some tp)
        obtain t p where tp: "tp = (t, p)" by (cases tp)
        have r: "0 \<le> p \<and> p \<le> 1000" using item_observation_range Inr Some tp by blast
        have l: "items_loop lib rest (tms @ [t]) (prs @ [p]) = Inr (tms', prs')"
          using Cons.prems(1) JDict Inr Some tp by simp
        have "length (tms @ [t]) = length (prs @ [p])" using Cons.prems(2) by simp
        moreover have "\<forall>q\<in>set (prs @ [p]). 0 \<le> q \<and> q \<le> 1000" using Cons.prems(3) r by simp
        ultimately show ?thesis using Cons.IH[OF l] by blast
      qed
    qed
  next
    case JNull
    then have "items_loop lib rest tms prs = Inr (tms', prs')" using Cons.prems(1) by simp
    then show ?thesis using Cons.IH Cons.prems(2,3) by blast
  next
    case (JBool b)
    then have "items_loop lib rest tms prs = Inr (tms', prs')" using Cons.prems(1) by simp
    then show ?thesis using Cons.IH Cons.prems(2,3) by blast
  next
    case (JInt n)
    then have "items_loop lib rest tms prs = Inr (tms', prs')" using Cons.prems(1) by simp
    then show ?thesis using Cons.IH Cons.prems(2,3) by blast
  next
    case (JFloat f)
    then have "items_loop lib rest tms prs = Inr (tms', prs')" using Cons.prems(1) by simp
    then show ?thesis using Cons.IH Cons.prems(2,3) by blast
  next
    case (JStr s)
    then have "items_loop lib rest tms prs = Inr (tms', prs')" using Cons.prems(1) by simp
    then show ?thesis using Cons.IH Cons.prems(2,3) by blast
  next
    case (JList xs)
    then have "items_loop lib rest tms prs = Inr (tms', prs')" using Cons.prems(1) by simp
    then show ?thesis using Cons.IH Cons.prems(2,3) by blast
  qed
qed

lemma sorted_map_fst_lex: "sorted (xs :: (int \<times> real) list) \<Longrightarrow> sorted (map fst xs)"
  by (induction xs) (auto simp: less_eq_prod_def)

lemma process_eq:
  "process_data_for_plotting lib data =
     (if \<not> truthy data then Inr (Inl No_data_received)
      else case payload_items data of
             None \<Rightarrow> Inr (Inl Unexpected_data_format)
           | Some items \<Rightarrow>
              (case items_loop lib items [] [] of
                 Inl e \<Rightarrow> Inl e
               | Inr (tms, prs) \<Rightarrow>
                  if tms = [] \<or> prs = [] then
                    Inr (Inl (No_valid_data_points (length items)))
                  else
                    (let sorted_data = sort_key (\<lambda>(t, p). (instant t, p)) (zip tms prs)
                     in Inr (Inr (map fst sorted_data, map snd sorted_data, length items)))))"
  unfolding process_data_for_plotting_def payload_items_def by (rule refl)

lemma process_parsed_shape:
  assumes "process_data_for_plotting lib data = Inr (Inr (ts, ps, n))"
  shows "\<exists>items tms prs. payload_items data = Some items
           \<and> items_loop lib items [] [] = Inr (tms, prs)
           \<and> ts = map fst (sort_key (\<lambda>(t, p). (instant t, p)) (zip tms prs))
           \<and> ps = map snd (sort_key (\<lambda>(t, p). (instant t, p)) (zip tms prs))
           \<and> n = length items"
proof -
  have t: "truthy data" using assms unfolding process_eq by (simp split: if_splits)
  obtain items where i: "payload_items data = Some items"
    using assms t unfolding process_eq by (cases "payload_items data") simp_all
  obtain tms prs where l: "items_loop lib items [] [] = Inr (tms, prs)"
    using assms t i unfolding process_eq by (cases "items_loop lib items [] []") auto
  have "\<not> (tms = [] \<or> prs = [])"
    using assms t i l unfolding process_eq by (auto split: if_splits)
  then show ?thesis
    using assms t i l unfolding process_eq by (simp add: Let_def)
qed

lemma find_items_no_list:
  "\<forall>k\<in>set keys. \<forall>xs. map_of d k \<noteq> Some (JList xs) \<Longrightarrow> find_items keys d = []"
  by (induction keys) (auto split: option.splits json.splits)

lemma process_format_error_iff:
  "process_data_for_plotting lib data = Inr (Inl Unexpected_data_format)
     \<longleftrightarrow> truthy data \<and> payload_items data = None"
proof (cases "payload_items data")
  case None
  then show ?thesis by (simp add: process_eq)
next
  case (Some items)
  show ?thesis
  proof (cases "items_loop lib items [] []")
    case (Inl e)
    then show ?thesis using Some by (simp add: process_eq)
  next
    case (Inr r)
    obtain tms prs where "r = (tms, prs)" by (cases r)
    then show ?thesis using Some Inr by (simp add: process_eq Let_def)
  qed
qed

lemma payload_items_none_iff:
  "payload_items data = None \<longleftrightarrow> (\<nexists>xs. data = JList xs) \<and> (\<nexists>d. data = JDict d)"
  by (cases data) (simp_all add: payload_items_def Let_def)

section \<open>Claims about the feed parser\<close>

text \<open>
  Claim C1.  As stated the claim fails: the payload \<^verbatim>\<open>{"foo": 1}\<close> is a dictionary, so the
  parser takes the dictionary itself as its only item; the item yields no observation and
  the parser returns the message "No valid data points found. Processed 1 items.", not the
  message for an unexpected format.
\<close>

theorem keyed_record_counterexample:
  "process_data_for_plotting sample_library (JDict [(''foo'', JInt 1)])
     = Inr (Inl (No_valid_data_points 1))
   \<and> process_data_for_plotting sample_library (JDict [(''foo'', JInt 1)])
     \<noteq> Inr (Inl Unexpected_data_format)"
  by code_simp

text \<open>
  Claim C1, amended.  A non-empty keyed record that holds no list under any known container
  key and that yields no observation as a single record is processed as a one-item list and
  answered with the degraded-data message, reporting one item.  The unexpected-format
  message is returned exactly for a truthy payload that is neither a list nor a keyed
  record.
\<close>

theorem keyed_record_degraded_signal:
  "(d \<noteq> [] \<longrightarrow> (\<forall>k\<in>set container_keys. \<forall>xs. map_of d k \<noteq> Some (JList xs))
       \<longrightarrow> item_observation lib d = Inr None
       \<longrightarrow> process_data_for_plotting lib (JDict d) = Inr (Inl (No_valid_data_points 1)))
   \<and> (process_data_for_plotting lib data = Inr (Inl Unexpected_data_format)
         \<longleftrightarrow> truthy data \<and> (\<nexists>xs. data = JList xs) \<and> (\<nexists>d. data = JDict d))"
proof -
  have a: "process_data_for_plotting lib (JDict d) = Inr (Inl (No_valid_data_points 1))"
    if "d \<noteq> []" "\<forall>k\<in>set container_keys. \<forall>xs. map_of d k \<noteq> Some (JList xs)"
       "item_observation lib d = Inr None"
  proof -
    have "find_items container_keys d = []" using that(2) by (rule find_items_no_list)
    then have "payload_items (JDict d) = Some [JDict d]" by (simp add: payload_items_def)
    moreover have "items_loop lib [JDict d] [] [] = Inr ([], [])" using that(3) by simp
    ultimately show ?thesis using that(1) by (simp add: process_eq)
  qed
  have b: "process_data_for_plotting lib data = Inr (Inl Unexpected_data_format)
         \<longleftrightarrow> truthy data \<and> (\<nexists>xs. data = JList xs) \<and> (\<nexists>d. data = JDict d)"
    unfolding process_format_error_iff payload_items_none_iff by (rule refl)
  show ?thesis using a b by blast
qed

theorem keyed_record_degraded_signal_witness:
  "[(''foo'', JInt 1)] \<noteq> []
   \<and> find_items container_keys [(''foo'', JInt 1)] = []
   \<and> item_observation sample_library [(''foo'', JInt 1)] = Inr None
   \<and> process_data_for_plotting sample_library (JDict [(''foo'', JInt 1)])
       = Inr (Inl (No_valid_data_points 1))"
proof -
  have h1: "[(''foo'', JInt 1)] \<noteq> []" by simp
  have h2: "\<forall>k\<in>set container_keys. \<forall>xs. map_of [(''foo'', JInt 1)] k \<noteq> Some (JList xs)"
    by (simp add: container_keys_def)
  have h3: "item_observation sample_library [(''foo'', JInt 1)] = Inr None"
    by (simp add: item_observation_def ts_fields_def price_fields_def)
  have h4: "find_items container_keys [(''foo'', JInt 1)] = []"
    by (simp add: container_keys_def)
  show ?thesis
    using h1 h2 h3 h4 keyed_record_degraded_signal[of "[(''foo'', JInt 1)]" sample_library JNull]
    by blast
qed

text \<open>
  Claim C5.  Whenever the parser returns observations, every returned price lies in
  \<open>[0, 1000]\<close>, the returned times are in ascending order of their instants, and there are
  as many times as prices, whatever the payload and the order of its items.
\<close>

theorem parser_filters_and_sorts:
  assumes "process_data_for_plotting lib data = Inr (Inr (ts, ps, n))"
  shows "(\<forall>p\<in>set ps. 0 \<le> p \<and> p \<le> 1000) \<and> sorted (map instant ts) \<and> length ts = length ps"
proof -
  obtain items tms prs where l: "items_loop lib items [] [] = Inr (tms, prs)"
    and ts: "ts = map fst (sort_key (\<lambda>(t, p). (instant t, p)) (zip tms prs))"
    and ps: "ps = map snd (sort_key (\<lambda>(t, p). (instant t, p)) (zip tms prs))"
    using process_parsed_shape[OF assms] by blast
  define sd where "sd = sort_key (\<lambda>(t, p). (instant t, p)) (zip tms prs)"
  have inv: "length tms = length prs" "\<forall>p\<in>set prs. 0 \<le> p \<and> p \<le> 1000"
    using items_loop_inv[OF l] by simp_all
  have "set sd = set (zip tms prs)" by (simp add: sd_def)
  then have "snd ` set sd \<subseteq> set prs" by (auto dest: set_zip_rightD)
  then have a: "\<forall>p\<in>set ps. 0 \<le> p \<and> p \<le> 1000"
    using inv(2) unfolding ps sd_def[symmetric] by auto
  have "sorted (map (\<lambda>(t, p). (instant t, p)) sd)" unfolding sd_def by (rule sorted_sort_key)
  then have "sorted (map fst (map (\<lambda>(t, p). (instant t, p)) sd))" by (rule sorted_map_fst_lex)
  moreover have "map fst (map (\<lambda>(t, p). (instant t, p)) sd) = map instant (map fst sd)"
    by (induction sd) auto
  ultimately have "sorted (map instant (map fst sd))" by (simp only:)
  then have b: "sorted (map instant ts)" unfolding ts sd_def[symmetric] .
  have c: "length ts = length ps" unfolding ts ps by simp
  show ?thesis using a b c by blast
qed

theorem parser_filters_and_sorts_witness:
  "process_data_for_plotting sample_library
     (JList [
       JDict [(''millisUTC'', JStr ''1704900000000''), (''price'', JInt 5)],
       JDict [(''millisUTC'', JStr ''1704600000000''), (''price'', JInt 1500)],
       JDict [(''millisUTC'', JStr ''1704700000000''), (''price'', JFloat (Finite 3.5))],
       JDict [(''millisUTC'', JStr ''1704800000000''), (''price'', JInt (- 1))]])
   = Inr (Inr ([\<lparr>wall = 1704678400000000, tzinfo = Some (Chicago_local (- 21600000000))\<rparr>,
         \<lparr>wall = 1704878400000000, tzinfo = Some (Chicago_local (- 21600000000))\<rparr>],
        [3.5, 5], 4))
   \<and> (0::real) \<le> 3.5 \<and> (3.5::real) \<le> 1000 \<and> (0::real) \<le> 5 \<and> (5::real) \<le> 1000
   \<and> sorted (map instant
        [\<lparr>wall = 1704678400000000, tzinfo = Some (Chicago_local (- 21600000000))\<rparr>,
         \<lparr>wall = 1704878400000000, tzinfo = Some (Chicago_local (- 21600000000))\<rparr>])"
proof -
  have g: "process_data_for_plotting sample_library
     (JList [
       JDict [(''millisUTC'', JStr ''1704900000000''), (''price'', JInt 5)],
       JDict [(''millisUTC'', JStr ''1704600000000''), (''price'', JInt 1500)],
       JDict [(''millisUTC'', JStr ''1704700000000''), (''price'', JFloat (Finite 3.5))],
       JDict [(''millisUTC'', JStr ''1704800000000''), (''price'', JInt (- 1))]])
   = Inr (Inr ([\<lparr>wall = 1704678400000000, tzinfo = Some (Chicago_local (- 21600000000))\<rparr>,
         \<lparr>wall = 1704878400000000, tzinfo = Some (Chicago_local (- 21600000000))\<rparr>],
        [3.5, 5], 4))"
    by code_simp
  show ?thesis
    using g parser_filters_and_sorts[OF g] by simp
qed

text \<open>
  Claim C10.  The guard before an observation is emitted tests the timestamp for truth, not
  for presence: an item whose located timestamp is falsy (the number 0, the empty text) adds
  nothing to the result although a numeric price within range was found.  The item
  \<^verbatim>\<open>{"millisUTC": 0, "price": 3.5}\<close> is such an item.
\<close>

theorem falsy_timestamp_skipped:
  assumes "\<not> truthy (find_timestamp ts_fields item)"
      and "find_price lib price_fields item = Inr (Some p)"
      and "in_price_range p"
  shows "item_observation lib item = Inr None
       \<and> items_loop lib (JDict item # rest) tms prs = items_loop lib rest tms prs"
proof -
  have "item_observation lib item = Inr None"
    using assms(1,2) by (simp add: item_observation_def Let_def)
  then show ?thesis by simp
qed

theorem falsy_timestamp_skipped_witness:
  "map_of [(''millisUTC'', JInt 0), (''price'', JFloat (Finite 3.5))] ''millisUTC'' = Some (JInt 0)
   \<and> \<not> truthy (find_timestamp ts_fields [(''millisUTC'', JInt 0), (''price'', JFloat (Finite 3.5))])
   \<and> find_price sample_library price_fields
        [(''millisUTC'', JInt 0), (''price'', JFloat (Finite 3.5))] = Inr (Some (Finite 3.5))
   \<and> in_price_range (Finite 3.5)
   \<and> item_observation sample_library
        [(''millisUTC'', JInt 0), (''price'', JFloat (Finite 3.5))] = Inr None"
proof -
  have h1: "\<not> truthy (find_timestamp ts_fields
              [(''millisUTC'', JInt 0), (''price'', JFloat (Finite 3.5))])"
    by (simp add: ts_fields_def)
  have h2: "find_price sample_library price_fields
        [(''millisUTC'', JInt 0), (''price'', JFloat (Finite 3.5))] = Inr (Some (Finite 3.5))"
    by (simp add: price_fields_def py_float_def)
  have h3: "in_price_range (Finite 3.5)" by (simp add: in_price_range_def)
  show ?thesis
    using h1 h2 h3 falsy_timestamp_skipped[OF h1 h2 h3] by simp
qed

section \<open>Properties of floating-point rounding\<close>

lemma rhe_error: "\<bar>of_int (round_half_even x) - x\<bar> \<le> 1 / 2"
proof -
  have "of_int \<lfloor>x\<rfloor> \<le> x" "x < of_int \<lfloor>x\<rfloor> + 1" by linarith+
  then show ?thesis
    unfolding round_half_even_def Let_def by (auto simp: abs_le_iff)
qed

lemma rhe_of_int: "round_half_even (of_int n) = n"
  by (simp add: round_half_even_def Let_def)

lemma pow2_pos: "0 < pow2 e"
  by (simp add: pow2_def)

lemma pow2_neg: "e \<le> 0 \<Longrightarrow> pow2 e = 1 / 2 ^ nat (- e)"
  by (auto simp: pow2_def)

lemma rtd_error:
  assumes "0 < x"
  shows "\<bar>round_to_double x - x\<bar> \<le> pow2 (max (binary_exponent x - 52) (- 1074)) / 2"
proof -
  define u where "u = pow2 (max (binary_exponent x - 52) (- 1074))"
  have u: "0 < u" unfolding u_def by (rule pow2_pos)
  define m where "m = round_half_even (x / u)"
  have r: "round_to_double x = of_int m * u"
    using assms by (simp add: round_to_double_def Let_def u_def m_def)
  have "\<bar>of_int m - x / u\<bar> \<le> 1 / 2" unfolding m_def by (rule rhe_error)
  then have "\<bar>of_int m - x / u\<bar> * u \<le> 1 / 2 * u" using u by (simp add: mult_right_mono)
  moreover have "\<bar>of_int m - x / u\<bar> * u = \<bar>of_int m * u - x\<bar>"
  proof -
    have "\<bar>of_int m - x / u\<bar> * u = \<bar>(of_int m - x / u) * u\<bar>" using u by (simp add: abs_mult)
    also have "(of_int m - x / u) * u = of_int m * u - x" using u by (simp add: field_simps)
    finally show ?thesis .
  qed
  ultimately show ?thesis unfolding r u_def by simp
qed

lemma binary_exponent_less:
  assumes "0 < x" "x < 2 ^ k" "0 < k"
  shows "binary_exponent x < int k"
proof (cases "1 \<le> x")
  case True
  define m where "m = \<lfloor>x\<rfloor>"
  have m: "0 < m" using True unfolding m_def by linarith
  have "2 ^ nat (bitlen m - 1) \<le> m" using bitlen_bounds[OF m] by simp
  then have "real_of_int (2 ^ nat (bitlen m - 1)) \<le> of_int m" by (rule of_int_le_iff[THEN iffD2])
  then have "(2::real) ^ nat (bitlen m - 1) \<le> of_int m" by simp
  moreover have "of_int m \<le> x" unfolding m_def by linarith
  ultimately have "(2::real) ^ nat (bitlen m - 1) < 2 ^ k" using assms(2) by linarith
  then have "nat (bitlen m - 1) < k" by (rule power_less_imp_less_exp[rotated]) simp
  then show ?thesis using True by (simp add: binary_exponent_def m_def[symmetric])
next
  case False
  then show ?thesis using assms(3) bitlen_nonneg[of "\<lceil>1 / x\<rceil> - 1"]
    by (simp add: binary_exponent_def)
qed

lemma pow2_le:
  assumes "e \<le> - int j"
  shows "pow2 e \<le> 1 / 2 ^ j"
proof -
  have "j \<le> nat (- e)" using assms by simp
  then have "(2::real) ^ j \<le> 2 ^ nat (- e)" by (simp add: power_increasing)
  then have "1 / (2::real) ^ nat (- e) \<le> 1 / 2 ^ j" by (simp add: frac_le)
  moreover have "pow2 e = 1 / 2 ^ nat (- e)" using assms by (simp add: pow2_neg)
  ultimately show ?thesis by simp
qed


lemma rtd_error_bound:
  assumes "0 < x" "x < 2 ^ k" "0 < k" "k \<le> 52"
  shows "\<bar>round_to_double x - x\<bar> \<le> 1 / 2 ^ (54 - k)"
proof -
  have "binary_exponent x < int k" using assms(1,2,3) by (rule binary_exponent_less)
  then have "max (binary_exponent x - 52) (- 1074) \<le> - int (53 - k)" using assms(4) by simp
  then have "pow2 (max (binary_exponent x - 52) (- 1074)) \<le> 1 / 2 ^ (53 - k)" by (rule pow2_le)
  then have "pow2 (max (binary_exponent x - 52) (- 1074)) / 2 \<le> 1 / 2 ^ (53 - k) / 2" by simp
  also have "1 / (2::real) ^ (53 - k) / 2 = 1 / 2 ^ Suc (53 - k)" by simp
  also have "Suc (53 - k) = 54 - k" using assms(4) by simp
  finally show ?thesis using rtd_error[OF assms(1)] by linarith
qed

lemma binary_exponent_of_int_nonneg:
  assumes "0 < n"
  shows "0 \<le> binary_exponent (real_of_int n)"
proof -
  have "bitlen n \<noteq> 0" using assms by (simp add: bitlen_eq_zero_iff)
  then have "1 \<le> bitlen n" using bitlen_nonneg[of n] by linarith
  moreover have "1 \<le> real_of_int n" using assms by simp
  ultimately show ?thesis by (simp add: binary_exponent_def)
qed

lemma rtd_of_int:
  assumes "0 < n" "real_of_int n < 2 ^ 53"
  shows "round_to_double (of_int n) = of_int n"
proof -
  define e where "e = binary_exponent (real_of_int n)"
  have a: "\<bar>real_of_int n\<bar> = of_int n" using assms(1) by simp
  have "binary_exponent (real_of_int n) < int 53"
    by (rule binary_exponent_less) (use assms in simp_all)
  then have e: "e - 52 \<le> 0" by (simp add: e_def)
  have "0 \<le> e" unfolding e_def using assms(1) by (rule binary_exponent_of_int_nonneg)
  then have mx: "max (e - 52) (- 1074) = e - 52" by simp
  define j where "j = nat (- (e - 52))"
  have u: "pow2 (e - 52) = 1 / 2 ^ j" using e unfolding j_def by (rule pow2_neg)
  have "real_of_int n / pow2 (e - 52) = of_int (n * 2 ^ j)" by (simp add: u)
  then have "round_half_even (real_of_int n / pow2 (e - 52)) = n * 2 ^ j"
    by (simp only: rhe_of_int)
  then have "of_int (round_half_even (\<bar>real_of_int n\<bar> / pow2 (e - 52))) * pow2 (e - 52) = real_of_int n"
    by (simp add: a u)
  then show ?thesis
    using assms(1) by (simp add: round_to_double_def Let_def e_def[symmetric] mx)
qed

lemma fraction_stage:
  fixes x d :: real and n f :: int
  assumes f: "1 \<le> f" "f \<le> 999"
      and x: "\<bar>x - (of_int n + of_int f / 1000)\<bar> \<le> d"
      and d: "d \<le> 1 / 2 ^ 20"
  defines "r \<equiv> round_half_even (round_to_double ((x - of_int n) * 1000000))"
  shows "\<lfloor>x\<rfloor> = n" and "\<bar>r - 1000 * f\<bar> \<le> 1" and "d \<le> 1 / 2 ^ 21 \<Longrightarrow> r = 1000 * f"
proof -
  have fr: "1 \<le> real_of_int f" "real_of_int f \<le> 999" using f by simp_all
  have d': "d \<le> 1 / 1048576" using d by simp
  have xl: "of_int n + of_int f / 1000 - d \<le> x" and xu: "x \<le> of_int n + of_int f / 1000 + d"
    using x by (simp_all add: abs_le_iff)
  have "of_int n \<le> x" "x < of_int n + 1" using xl xu fr d' by linarith+
  then show fl: "\<lfloor>x\<rfloor> = n" by linarith
  define y where "y = (x - of_int n) * 1000000"
  have yl: "1000 * of_int f - 1000000 * d \<le> y"
    using xl unfolding y_def by (simp add: algebra_simps)
  have yu: "y \<le> 1000 * of_int f + 1000000 * d"
    using xu unfolding y_def by (simp add: algebra_simps)
  have y0: "0 < y" using yl fr d' by linarith
  have y1: "y < 2 ^ 20" using yu fr d' by simp
  have z: "\<bar>round_to_double y - y\<bar> \<le> 1 / 2 ^ (54 - 20)"
    by (rule rtd_error_bound[OF y0 y1]) simp_all
  have z': "\<bar>round_to_double y - y\<bar> \<le> 1 / 17179869184" using z by simp
  have rr: "\<bar>of_int r - round_to_double y\<bar> \<le> 1 / 2"
    unfolding r_def y_def by (rule rhe_error)
  have "\<bar>real_of_int r - 1000 * of_int f\<bar> < 2"
    using rr z' yl yu d' by linarith
  then have "\<bar>real_of_int (r - 1000 * f)\<bar> < 2" by simp
  then have "\<bar>r - 1000 * f\<bar> < 2" by linarith
  then show "\<bar>r - 1000 * f\<bar> \<le> 1" by simp
  show "r = 1000 * f" if "d \<le> 1 / 2 ^ 21"
  proof -
    have d2: "d \<le> 1 / 2097152" using that by simp
    have "\<bar>real_of_int r - 1000 * of_int f\<bar> < 1"
      using rr z' yl yu d2 by linarith
    then have "\<bar>real_of_int (r - 1000 * f)\<bar> < 1" by simp
    then have "\<bar>r - 1000 * f\<bar> < 1" by linarith
    then show ?thesis by simp
  qed
qed


lemma utcfromtimestamp_whole:
  assumes "0 \<le> n" "n < 10000000000"
  shows "utcfromtimestamp (round_to_double (of_int n)) = Inr \<lparr>wall = n * 1000000, tzinfo = None\<rparr>"
proof -
  have x: "round_to_double (of_int n) = of_int n"
  proof (cases "n = 0")
    case True
    then show ?thesis by (simp add: round_to_double_def)
  next
    case False
    then have "0 < n" using assms(1) by simp
    moreover have "real_of_int n < 2 ^ 53" using assms(2) by simp
    ultimately show ?thesis by (rule rtd_of_int)
  qed
  have z: "round_half_even (round_to_double 0) = 0"
    by (simp add: round_to_double_def round_half_even_def)
  have r: "min_wall \<le> n * 1000000 \<and> n * 1000000 \<le> max_wall"
    using assms by (simp add: min_wall_def max_wall_def)
  show ?thesis
    using assms(1) r by (simp add: utcfromtimestamp_def x z Let_def)
qed

lemma utcfromtimestamp_fraction:
  fixes x :: real and n r :: int
  assumes "0 \<le> n" "n < 10000000000" "\<lfloor>x\<rfloor> = n"
      and "r = round_half_even (round_to_double ((x - of_int n) * 1000000))"
      and "0 \<le> r" "r < 1000000"
  shows "utcfromtimestamp x = Inr \<lparr>wall = n * 1000000 + r, tzinfo = None\<rparr>"
proof -
  have x0: "0 \<le> x" using assms(1,3) by linarith
  have rg: "min_wall \<le> n * 1000000 + r \<and> n * 1000000 + r \<le> max_wall"
    using assms(1,2,5,6) by (simp add: min_wall_def max_wall_def)
  have e: "(x - real_of_int n) * 1000000 = x * 1000000 - real_of_int n * 1000000"
    by (simp add: algebra_simps)
  have r': "round_half_even (round_to_double (x * 1000000 - real_of_int n * 1000000)) = r"
    unfolding assms(4) e by (rule refl)
  show ?thesis
    using x0 rg assms(5,6)
    by (simp add: utcfromtimestamp_def Let_def assms(3) r')
qed


lemma utcfromtimestamp_millis:
  assumes "0 \<le> ms" "ms < 10000000000000"
  shows "\<exists>w. utcfromtimestamp (round_to_double (of_int ms / 1000)) = Inr \<lparr>wall = w, tzinfo = None\<rparr>
           \<and> \<bar>w - 1000 * ms\<bar> \<le> 1 \<and> (ms < 8589934592000 \<longrightarrow> w = 1000 * ms)
           \<and> 0 \<le> w \<and> w \<le> 10000000000000000"
proof -
  define n where "n = ms div 1000"
  define f where "f = ms mod 1000"
  have ms: "ms = 1000 * n + f" by (simp add: n_def f_def)
  have f: "0 \<le> f" "f \<le> 999" by (simp_all add: f_def)
  have n: "0 \<le> n" "n < 10000000000" using assms by (simp_all add: n_def)
  have q: "real_of_int ms / 1000 = of_int n + of_int f / 1000" by (simp add: ms)
  show ?thesis
  proof (cases "f = 0")
    case True
    have "utcfromtimestamp (round_to_double (of_int ms / 1000)) = Inr \<lparr>wall = n * 1000000, tzinfo = None\<rparr>"
      unfolding q using True utcfromtimestamp_whole[OF n] by simp
    moreover have "n * 1000000 = 1000 * ms" using True ms by simp
    ultimately show ?thesis using assms by simp
  next
    case False
    then have f1: "1 \<le> f" using f by simp
    define x where "x = round_to_double (of_int ms / 1000)"
    define r where "r = round_half_even (round_to_double ((x - of_int n) * 1000000))"
    have fr: "1 \<le> real_of_int f" "real_of_int f \<le> 999" using f1 f by simp_all
    have nr: "0 \<le> real_of_int n" "real_of_int n \<le> 9999999999" using n by simp_all
    have q0: "0 < real_of_int ms / 1000" unfolding q using fr nr by linarith
    have q1: "real_of_int ms / 1000 < 2 ^ 34" unfolding q using fr nr by simp
    have "\<bar>x - real_of_int ms / 1000\<bar> \<le> 1 / 2 ^ (54 - 34)"
      unfolding x_def by (rule rtd_error_bound[OF q0 q1]) simp_all
    then have d: "\<bar>x - (of_int n + of_int f / 1000)\<bar> \<le> 1 / 2 ^ 20" by (simp add: q)
    have fl: "\<lfloor>x\<rfloor> = n" and rb: "\<bar>r - 1000 * f\<bar> \<le> 1"
      unfolding r_def using fraction_stage(1,2)[OF f1 f(2) d] by simp_all
    have r0: "0 \<le> r" "r < 1000000" using rb f1 f(2) by linarith+
    have u: "utcfromtimestamp x = Inr \<lparr>wall = n * 1000000 + r, tzinfo = None\<rparr>"
      using n fl r_def r0 by (rule utcfromtimestamp_fraction)
    have b: "\<bar>(n * 1000000 + r) - 1000 * ms\<bar> \<le> 1" using rb ms by linarith
    have e: "n * 1000000 + r = 1000 * ms" if "ms < 8589934592000"
    proof -
      have "real_of_int ms / 1000 < 2 ^ 33" using that by simp
      then have "\<bar>x - real_of_int ms / 1000\<bar> \<le> 1 / 2 ^ (54 - 33)"
        unfolding x_def using q0 by (intro rtd_error_bound) simp_all
      then have d2: "\<bar>x - (of_int n + of_int f / 1000)\<bar> \<le> 1 / 2 ^ 21" by (simp add: q)
      have "(1::real) / 2 ^ 21 \<le> 1 / 2 ^ 20" by simp
      then have "r = 1000 * f"
        unfolding r_def using fraction_stage(3)[OF f1 f(2) d2] by simp
      then show ?thesis using ms by simp
    qed
    have g: "0 \<le> n * 1000000 + r \<and> n * 1000000 + r \<le> 10000000000000000"
      using n r0 by linarith
    show ?thesis
      using u b e g unfolding x_def by blast
  qed
qed

lemma fold_digits_bounds:
  "list_all ascii_digit s \<Longrightarrow> 0 \<le> a \<Longrightarrow>
     0 \<le> fold (\<lambda>c a. a * 10 + (int (of_char c) - 48)) s a
     \<and> fold (\<lambda>c a. a * 10 + (int (of_char c) - 48)) s a < (a + 1) * 10 ^ length s"
proof (induction s arbitrary: a)
  case Nil
  then show ?case by simp
next
  case (Cons c s)
  define a' where "a' = a * 10 + (int (of_char c) - 48)"
  have c: "48 \<le> int (of_char c)" "int (of_char c) \<le> 57"
    using Cons.prems(1) by (simp_all add: ascii_digit_def)
  have a0: "0 \<le> a'" using c Cons.prems(2) by (simp add: a'_def)
  have a1: "a' + 1 \<le> (a + 1) * 10" using c by (simp add: a'_def)
  have s: "list_all ascii_digit s" using Cons.prems(1) by simp
  have ih: "0 \<le> fold (\<lambda>c a. a * 10 + (int (of_char c) - 48)) s a'"
           "fold (\<lambda>c a. a * 10 + (int (of_char c) - 48)) s a' < (a' + 1) * 10 ^ length s"
    using Cons.IH[OF s a0] by simp_all
  have "(a' + 1) * 10 ^ length s \<le> ((a + 1) * 10) * 10 ^ length s"
    using a1 by (intro mult_right_mono) simp_all
  then have "fold (\<lambda>c a. a * 10 + (int (of_char c) - 48)) s a' < ((a + 1) * 10) * 10 ^ length s"
    using ih(2) by linarith
  moreover have "((a + 1) * 10) * 10 ^ length s = (a + 1) * 10 ^ length (c # s)" by simp
  ultimately have "fold (\<lambda>c a. a * 10 + (int (of_char c) - 48)) s a' < (a + 1) * 10 ^ length (c # s)"
    by (simp only:)
  then show ?case using ih(1) by (simp add: a'_def[symmetric])
qed

lemma thirteen_digits:
  assumes "length s = 13" "list_all ascii_digit s"
  shows "isdigit s" and "\<exists>ms. int_of_digits s = Inr ms \<and> 0 \<le> ms \<and> ms < 10000000000000"
proof -
  have ne: "s \<noteq> []" using assms(1) by auto
  show "isdigit s" using ne assms(2) by (simp add: isdigit_def list_all_iff)
  have "0 \<le> fold (\<lambda>c a. a * 10 + (int (of_char c) - 48)) s 0
     \<and> fold (\<lambda>c a. a * 10 + (int (of_char c) - 48)) s 0 < (0 + 1) * 10 ^ length s"
    using assms(2) by (intro fold_digits_bounds) simp_all
  then show "\<exists>ms. int_of_digits s = Inr ms \<and> 0 \<le> ms \<and> ms < 10000000000000"
    using ne assms by (simp add: int_of_digits_def)
qed

section \<open>Claims about the timestamp normalizer\<close>

text \<open>
  Claim C4.  As stated the claim fails: the milliseconds are divided by 1000 as a float and
  \<^verbatim>\<open>utcfromtimestamp\<close> keeps the fraction, so the instant is not floored to the second.  The
  text \<^verbatim>\<open>1704900000500\<close> gives 2024-01-10 15:20:00.500000 UTC, half a second after
  \<open>\<lfloor>ms / 1000\<rfloor>\<close> seconds.
\<close>

theorem normalize_floor_counterexample:
  "convert_to_chicago_time sample_library ''1704900000500''
     = Some \<lparr>wall = 1704878400500000, tzinfo = Some (Chicago_local (- 21600000000))\<rparr>
   \<and> instant \<lparr>wall = 1704878400500000, tzinfo = Some (Chicago_local (- 21600000000))\<rparr>
       = 1704900000500000
   \<and> (1704900000500000 :: int) \<noteq> (1704900000500 div 1000) * 1000000"
  by code_simp

text \<open>
  Claim C4, amended.  For every text of 13 ASCII digits with value \<open>ms\<close> the normalizer
  returns a datetime whose instant is \<open>ms\<close> milliseconds after the epoch, the sub-second
  part included: exactly \<open>1000 ms\<close> microseconds when \<open>ms < 2\<^sup>3\<^sup>3 \<times> 1000\<close> (instants before
  the year 2242) and within one microsecond of it above, where the float quotient is too
  coarse.  The datetime carries the offset that the zone table gives for that instant and
  its civil fields are the UTC fields moved by that offset.  (The table is any table with
  offsets of less than a day.)
\<close>

theorem normalize_epoch_millis:
  assumes "length s = 13" "list_all ascii_digit s"
      and "\<forall>u. \<bar>chicago_table lib u\<bar> < 86400000000"
  shows "\<exists>ms utc. int_of_digits s = Inr ms
           \<and> convert_to_chicago_time lib s
               = Some \<lparr>wall = utc + chicago_table lib utc,
                        tzinfo = Some (Chicago_local (chicago_table lib utc))\<rparr>
           \<and> instant \<lparr>wall = utc + chicago_table lib utc,
                        tzinfo = Some (Chicago_local (chicago_table lib utc))\<rparr> = utc
           \<and> \<bar>utc - 1000 * ms\<bar> \<le> 1
           \<and> (ms < 8589934592000 \<longrightarrow> utc = 1000 * ms)"
proof -
  obtain ms where ms: "int_of_digits s = Inr ms" "0 \<le> ms" "ms < 10000000000000"
    using thirteen_digits(2)[OF assms(1,2)] by blast
  have dg: "isdigit s" using assms(1,2) by (rule thirteen_digits(1))
  obtain w where w: "utcfromtimestamp (round_to_double (of_int ms / 1000)) = Inr \<lparr>wall = w, tzinfo = None\<rparr>"
    and wb: "\<bar>w - 1000 * ms\<bar> \<le> 1" "ms < 8589934592000 \<longrightarrow> w = 1000 * ms"
    and wr: "0 \<le> w" "w \<le> 10000000000000000"
    using utcfromtimestamp_millis[OF ms(2,3)] by blast
  have t: "\<bar>chicago_table lib w\<bar> < 86400000000" using assms(3) by blast
  have r: "min_wall \<le> w \<and> w \<le> max_wall \<and> min_wall \<le> w + chicago_table lib w
             \<and> w + chicago_table lib w \<le> max_wall"
    using wr t unfolding min_wall_def max_wall_def by linarith
  have a: "astimezone (chicago_table lib) \<lparr>wall = w, tzinfo = Some UTC\<rparr>
             = Inr \<lparr>wall = w + chicago_table lib w, tzinfo = Some (Chicago_local (chicago_table lib w))\<rparr>"
    using r by (simp add: astimezone_def Let_def)
  have c: "convert_to_chicago_time lib s
             = Some \<lparr>wall = w + chicago_table lib w, tzinfo = Some (Chicago_local (chicago_table lib w))\<rparr>"
    using dg assms(1) by (simp add: convert_to_chicago_time_def ms(1) w a Let_def)
  have i: "instant \<lparr>wall = w + chicago_table lib w, tzinfo = Some (Chicago_local (chicago_table lib w))\<rparr> = w"
    by (simp add: instant_def)
  show ?thesis using ms(1) c i wb by blast
qed

text \<open>A standard-time instant (2024-01-10) and a daylight-time instant (2024-07-03).\<close>

theorem normalize_epoch_millis_witness:
  "length ''1704900000000'' = 13 \<and> length ''1720000000123'' = 13
   \<and> convert_to_chicago_time sample_library ''1704900000000''
       = Some \<lparr>wall = 1704878400000000, tzinfo = Some (Chicago_local (- 21600000000))\<rparr>
   \<and> convert_to_chicago_time sample_library ''1720000000123''
       = Some \<lparr>wall = 1719982000123000, tzinfo = Some (Chicago_local (- 18000000000))\<rparr>"
proof -
  have t: "\<forall>u. \<bar>chicago_table sample_library u\<bar> < 86400000000"
    by (simp add: sample_library_def chicago_2024_def)
  have l1: "length ''1704900000000'' = 13" by simp
  have d1: "list_all ascii_digit ''1704900000000''" by (simp add: ascii_digit_def)
  have v1: "int_of_digits ''1704900000000'' = Inr 1704900000000"
    by (simp add: int_of_digits_def ascii_digit_def)
  have l2: "length ''1720000000123'' = 13" by simp
  have d2: "list_all ascii_digit ''1720000000123''" by (simp add: ascii_digit_def)
  have v2: "int_of_digits ''1720000000123'' = Inr 1720000000123"
    by (simp add: int_of_digits_def ascii_digit_def)
  have c1: "convert_to_chicago_time sample_library ''1704900000000''
       = Some \<lparr>wall = 1704878400000000, tzinfo = Some (Chicago_local (- 21600000000))\<rparr>"
    using normalize_epoch_millis[OF l1 d1 t] unfolding v1
    by (auto simp: sample_library_def chicago_2024_def)
  have c2: "convert_to_chicago_time sample_library ''1720000000123''
       = Some \<lparr>wall = 1719982000123000, tzinfo = Some (Chicago_local (- 18000000000))\<rparr>"
    using normalize_epoch_millis[OF l2 d2 t] unfolding v2
    by (auto simp: sample_library_def chicago_2024_def)
  show ?thesis using l1 l2 c1 c2 by blast
qed

section \<open>Rounding of sums and halves\<close>

text \<open>
  Halving commutes with rounding above the subnormal range, rounding is idempotent, and in
  the subnormal range the sum of two binary64 numbers is a binary64 number.  Hence the
  halved, rounded sum of two non-negative binary64 numbers is their average rounded once.
\<close>

lemma pow2_powi: "pow2 e = 2 powi e"
  by (simp add: pow2_def power_int_def field_simps)

lemma pow2_add: "pow2 (a + b) = pow2 a * pow2 b"
  by (simp add: pow2_powi power_int_add)

lemma pow2_diff: "pow2 (a - b) = pow2 a / pow2 b"
  by (simp add: pow2_powi power_int_diff)

lemma pow2_mono: "a \<le> b \<Longrightarrow> pow2 a \<le> pow2 b"
  by (simp add: pow2_powi power_int_increasing)

lemma pow2_less_D: "pow2 a < pow2 b \<Longrightarrow> a < b"
  using pow2_mono[of b a] by (cases "a < b") simp_all

lemma binary_exponent_bounds:
  assumes "0 < x"
  shows "pow2 (binary_exponent x) \<le> x \<and> x < pow2 (binary_exponent x + 1)"
proof (cases "1 \<le> x")
  case True
  define m where "m = \<lfloor>x\<rfloor>"
  have m: "0 < m" using True unfolding m_def by linarith
  define L where "L = bitlen m"
  have b: "2 ^ nat (L - 1) \<le> m" "m < 2 ^ nat L" using bitlen_bounds[OF m] by (simp_all add: L_def)
  have "L \<noteq> 0" using m by (simp add: L_def bitlen_eq_zero_iff)
  then have L: "1 \<le> L" using bitlen_nonneg[of m] unfolding L_def by linarith
  have "real_of_int (2 ^ nat (L - 1)) \<le> of_int m" using b(1) by (rule of_int_le_iff[THEN iffD2])
  moreover have "of_int m \<le> x" unfolding m_def by linarith
  ultimately have "real_of_int (2 ^ nat (L - 1)) \<le> x" by linarith
  then have lo: "(2::real) ^ nat (L - 1) \<le> x" by simp
  have "m + 1 \<le> 2 ^ nat L" using b(2) by simp
  then have "real_of_int (m + 1) \<le> of_int (2 ^ nat L)" by (rule of_int_le_iff[THEN iffD2])
  moreover have "x < of_int m + 1" unfolding m_def by linarith
  ultimately have "x < real_of_int (2 ^ nat L)" by simp
  then have hi: "x < 2 ^ nat L" by simp
  have e: "binary_exponent x = L - 1" using True by (simp add: binary_exponent_def m_def L_def)
  show ?thesis unfolding e using lo hi L by (simp add: pow2_def)
next
  case False
  define c where "c = \<lceil>1 / x\<rceil>"
  have x1: "1 < 1 / x" using assms False by simp
  have c: "1 / x \<le> of_int c" "of_int c - 1 < 1 / x" unfolding c_def by linarith+
  have "1 < real_of_int c" using x1 c(1) by linarith
  then have n: "0 < c - 1" by simp
  define L where "L = bitlen (c - 1)"
  have b: "2 ^ nat (L - 1) \<le> c - 1" "c - 1 < 2 ^ nat L" using bitlen_bounds[OF n] by (simp_all add: L_def)
  have "L \<noteq> 0" using n by (simp add: L_def bitlen_eq_zero_iff)
  then have L: "1 \<le> L" using bitlen_nonneg[of "c - 1"] unfolding L_def by linarith
  have "c \<le> 2 ^ nat L" using b(2) by simp
  then have "real_of_int c \<le> of_int (2 ^ nat L)" by (rule of_int_le_iff[THEN iffD2])
  then have "1 / x \<le> real_of_int (2 ^ nat L)" using c(1) by linarith
  then have "1 / x \<le> 2 ^ nat L" by simp
  then have lo: "1 / 2 ^ nat L \<le> x" using assms by (simp add: field_simps)
  have "real_of_int (2 ^ nat (L - 1)) \<le> of_int (c - 1)" using b(1) by (rule of_int_le_iff[THEN iffD2])
  then have "real_of_int (2 ^ nat (L - 1)) < 1 / x" using c(2) by simp
  then have "2 ^ nat (L - 1) < 1 / x" by simp
  then have hi: "x < 1 / 2 ^ nat (L - 1)" using assms by (simp add: field_simps)
  have e: "binary_exponent x = - L" using False by (simp add: binary_exponent_def c_def L_def)
  show ?thesis
  proof (cases "L = 1")
    case True
    then show ?thesis unfolding e using lo hi by (simp add: pow2_def)
  next
    case False
    then have "\<not> 0 \<le> - L + 1" "\<not> 0 \<le> - L" "nat (- (- L + 1)) = nat (L - 1)" using L by simp_all
    then show ?thesis unfolding e using lo hi by (simp add: pow2_def)
  qed
qed

lemma binary_exponent_unique:
  assumes "pow2 k \<le> x" "x < pow2 (k + 1)"
  shows "binary_exponent x = k"
proof -
  have x: "0 < x" using pow2_pos[of k] assms(1) by linarith
  define e where "e = binary_exponent x"
  have b: "pow2 e \<le> x" "x < pow2 (e + 1)" using binary_exponent_bounds[OF x] by (simp_all add: e_def)
  have "pow2 e < pow2 (k + 1)" using b(1) assms(2) by linarith
  then have "e < k + 1" by (rule pow2_less_D)
  moreover have "pow2 k < pow2 (e + 1)" using b(2) assms(1) by linarith
  then have "k < e + 1" by (rule pow2_less_D)
  ultimately show ?thesis unfolding e_def by linarith
qed

lemma pow2_pred: "pow2 (e - 1) = pow2 e / 2"
  by (simp add: pow2_powi power_int_diff)

lemma pow2_53: "pow2 (k + 53) = 2 ^ 53 * pow2 k"
proof -
  have "pow2 53 = 2 ^ 53" by (simp add: pow2_def)
  then show ?thesis unfolding pow2_add by simp
qed

lemma rtd_zero: "round_to_double 0 = 0"
  by (simp add: round_to_double_def)

lemma binary_exponent_half:
  assumes "0 < x"
  shows "binary_exponent (x / 2) = binary_exponent x - 1"
proof (rule binary_exponent_unique)
  have b: "pow2 (binary_exponent x) \<le> x" "x < pow2 (binary_exponent x + 1)"
    using binary_exponent_bounds[OF assms] by simp_all
  show "pow2 (binary_exponent x - 1) \<le> x / 2" using b(1) by (simp add: pow2_pred)
  have "pow2 (binary_exponent x - 1 + 1) = pow2 (binary_exponent x + 1 - 1)" by simp
  also have "\<dots> = pow2 (binary_exponent x + 1) / 2" by (rule pow2_pred)
  finally show "x / 2 < pow2 (binary_exponent x - 1 + 1)" using b(2) by simp
qed

lemma rtd_pos:
  "0 < x \<Longrightarrow> round_to_double x =
     of_int (round_half_even (x / pow2 (max (binary_exponent x - 52) (- 1074))))
       * pow2 (max (binary_exponent x - 52) (- 1074))"
  by (simp add: round_to_double_def Let_def)

lemma rtd_half:
  assumes "0 < x" "- 1021 \<le> binary_exponent x"
  shows "round_to_double (x / 2) = round_to_double x / 2"
proof -
  define e where "e = binary_exponent x"
  have h: "binary_exponent (x / 2) = e - 1" unfolding e_def using assms(1) by (rule binary_exponent_half)
  have k1: "max (e - 52) (- 1074) = e - 52" using assms(2) by (simp add: e_def)
  have k2: "max (e - 1 - 52) (- 1074) = e - 52 - 1" using assms(2) by (simp add: e_def)
  have u: "pow2 (e - 52 - 1) = pow2 (e - 52) / 2" by (rule pow2_pred)
  have q: "x / 2 / (pow2 (e - 52) / 2) = x / pow2 (e - 52)" by simp
  have x2: "0 < x / 2" using assms(1) by simp
  have "round_to_double (x / 2) = of_int (round_half_even (x / pow2 (e - 52))) * (pow2 (e - 52) / 2)"
    unfolding rtd_pos[OF x2] h k2 u q ..
  moreover have "round_to_double x = of_int (round_half_even (x / pow2 (e - 52))) * pow2 (e - 52)"
    unfolding rtd_pos[OF assms(1)] e_def[symmetric] k1 ..
  ultimately show ?thesis by simp
qed

lemma rhe_nonneg: "0 \<le> x \<Longrightarrow> 0 \<le> round_half_even x"
  by (auto simp: round_half_even_def Let_def)

lemma rhe_le:
  assumes "x \<le> of_int N"
  shows "round_half_even x \<le> N"
proof (cases "\<lfloor>x\<rfloor> = N")
  case True
  then have "x - of_int \<lfloor>x\<rfloor> \<le> 0" using assms by simp
  then show ?thesis using True by (simp add: round_half_even_def Let_def)
next
  case False
  have "\<lfloor>x\<rfloor> \<le> N" using assms by (simp add: floor_le_iff)
  then have "\<lfloor>x\<rfloor> + 1 \<le> N" using False by simp
  then show ?thesis by (auto simp: round_half_even_def Let_def)
qed

lemma rtd_fixed:
  assumes "0 < m" "m \<le> 2 ^ 53" "- 1074 \<le> k"
  shows "round_to_double (of_int m * pow2 k) = of_int m * pow2 k"
proof -
  define y where "y = real_of_int m * pow2 k"
  have y: "0 < y" using assms(1) pow2_pos[of k] by (simp add: y_def)
  define e where "e = binary_exponent y"
  define K where "K = max (e - 52) (- 1074)"
  have b: "pow2 e \<le> y" "y < pow2 (e + 1)" using binary_exponent_bounds[OF y] by (simp_all add: e_def)
  have r: "round_to_double y = of_int (round_half_even (y / pow2 K)) * pow2 K"
    unfolding rtd_pos[OF y] e_def[symmetric] K_def ..
  have "round_to_double y = y"
  proof (cases "K \<le> k")
    case True
    have "pow2 k = pow2 (k - K) * pow2 K" using pow2_add[of "k - K" K] by simp
    also have "pow2 (k - K) = 2 ^ nat (k - K)" using True by (simp add: pow2_def)
    finally have yk: "y = of_int (m * 2 ^ nat (k - K)) * pow2 K" by (simp add: y_def)
    then have "y / pow2 K = of_int (m * 2 ^ nat (k - K))" using pow2_pos[of K] by simp
    then have "round_half_even (y / pow2 K) = m * 2 ^ nat (k - K)" by (simp only: rhe_of_int)
    then show ?thesis unfolding r using yk by simp
  next
    case False
    then have K: "K = e - 52" "k < e - 52" using assms(3) by (simp_all add: K_def)
    have "real_of_int m \<le> of_int (2 ^ 53)" using assms(2) by (rule of_int_le_iff[THEN iffD2])
    then have "y \<le> 2 ^ 53 * pow2 k" using pow2_pos[of k] by (simp add: y_def)
    also have "\<dots> = pow2 (k + 53)" by (simp only: pow2_53)
    finally have le: "y \<le> pow2 (k + 53)" .
    have "pow2 (k + 53) \<le> pow2 e" using K(2) by (intro pow2_mono) simp
    then have yv: "y = pow2 e" using b(1) le by linarith
    have "y / pow2 K = pow2 (e - K)" by (simp add: yv pow2_diff)
    also have "e - K = 52" using K by simp
    also have "pow2 52 = of_int (2 ^ 52)" by (simp add: pow2_def)
    finally have "round_half_even (y / pow2 K) = 2 ^ 52" by (simp only: rhe_of_int)
    then have rv: "round_to_double y = 2 ^ 52 * pow2 K" unfolding r by simp
    have p52: "pow2 52 = 2 ^ 52" by (simp add: pow2_def)
    have "pow2 e = pow2 (K + 52)" using K by simp
    also have "\<dots> = pow2 K * pow2 52" by (rule pow2_add)
    finally have "pow2 e = 2 ^ 52 * pow2 K" by (simp add: p52)
    then show ?thesis using yv rv by simp
  qed
  then show ?thesis by (simp add: y_def)
qed

lemma rtd_grid:
  assumes "0 < x"
  shows "\<exists>m. 0 \<le> m \<and> m \<le> 2 ^ 53
           \<and> round_to_double x = of_int m * pow2 (max (binary_exponent x - 52) (- 1074))"
proof -
  define e where "e = binary_exponent x"
  define K where "K = max (e - 52) (- 1074)"
  define m where "m = round_half_even (x / pow2 K)"
  have b: "x < pow2 (e + 1)" using binary_exponent_bounds[OF assms] by (simp add: e_def)
  have "pow2 (e + 1) \<le> pow2 (K + 53)" by (intro pow2_mono) (simp add: K_def)
  also have "\<dots> = 2 ^ 53 * pow2 K" by (rule pow2_53)
  finally have "x < 2 ^ 53 * pow2 K" using b by linarith
  then have "x / pow2 K < 2 ^ 53" using pow2_pos[of K] by (simp add: field_simps)
  then have "x / pow2 K \<le> of_int (2 ^ 53)" by simp
  then have "m \<le> 2 ^ 53" unfolding m_def by (rule rhe_le)
  moreover have "0 \<le> x / pow2 K" using assms pow2_pos[of K] by simp
  then have "0 \<le> m" unfolding m_def by (rule rhe_nonneg)
  moreover have "round_to_double x = of_int m * pow2 K"
    unfolding rtd_pos[OF assms] e_def[symmetric] K_def m_def ..
  ultimately show ?thesis unfolding K_def e_def by blast
qed

lemma rtd_idem:
  assumes "0 < x"
  shows "round_to_double (round_to_double x) = round_to_double x"
proof -
  define K where "K = max (binary_exponent x - 52) (- 1074)"
  obtain m where m: "0 \<le> m" "m \<le> 2 ^ 53" "round_to_double x = of_int m * pow2 K"
    using rtd_grid[OF assms] unfolding K_def by blast
  show ?thesis
  proof (cases "m = 0")
    case True
    then have z: "round_to_double x = 0" using m(3) by simp
    show ?thesis unfolding z by (rule rtd_zero)
  next
    case False
    then have "0 < m" using m(1) by simp
    moreover have "- 1074 \<le> K" by (simp add: K_def)
    ultimately show ?thesis unfolding m(3) using m(2) by (intro rtd_fixed)
  qed
qed

lemma double_grid:
  assumes "round_to_double a = a" "0 \<le> a"
  shows "\<exists>A. 0 \<le> A \<and> a = of_int A * pow2 (- 1074)"
proof (cases "a = 0")
  case True
  then have "0 \<le> (0::int) \<and> a = of_int 0 * pow2 (- 1074)" by simp
  then show ?thesis by blast
next
  case False
  then have a: "0 < a" using assms(2) by simp
  define K where "K = max (binary_exponent a - 52) (- 1074)"
  obtain m where m: "0 \<le> m" "m \<le> 2 ^ 53" "round_to_double a = of_int m * pow2 K"
    using rtd_grid[OF a] unfolding K_def by blast
  have K: "0 \<le> K + 1074" by (simp add: K_def)
  have "pow2 K = pow2 (K + 1074) * pow2 (- 1074)" using pow2_add[of "K + 1074" "- 1074"] by simp
  also have "pow2 (K + 1074) = 2 ^ nat (K + 1074)" using K by (simp add: pow2_def)
  finally have "a = of_int (m * 2 ^ nat (K + 1074)) * pow2 (- 1074)"
    using m(3) assms(1) by simp
  moreover have "0 \<le> m * 2 ^ nat (K + 1074)" using m(1) by simp
  ultimately show ?thesis by blast
qed

lemma rtd_small_grid:
  assumes "0 < A" "binary_exponent (of_int A * pow2 (- 1074)) \<le> - 1022"
  shows "round_to_double (of_int A * pow2 (- 1074)) = of_int A * pow2 (- 1074)"
proof -
  define y where "y = real_of_int A * pow2 (- 1074)"
  have y: "0 < y" using assms(1) pow2_pos[of "- 1074"] by (simp add: y_def)
  have K: "max (binary_exponent y - 52) (- 1074) = - 1074" using assms(2) by (simp add: y_def)
  have "y / pow2 (- 1074) = of_int A" using pow2_pos[of "- 1074"] by (simp add: y_def)
  then have "round_half_even (y / pow2 (- 1074)) = A" by (simp only: rhe_of_int)
  then have "round_to_double y = y" unfolding rtd_pos[OF y] K by (simp add: y_def)
  then show ?thesis by (simp add: y_def)
qed

lemma rtd_half_sum:
  assumes "round_to_double a = a" "0 \<le> a" "round_to_double b = b" "0 \<le> b"
  shows "round_to_double (round_to_double (a + b) / 2) = round_to_double ((a + b) / 2)"
proof (cases "a + b = 0")
  case True
  then show ?thesis by (simp add: rtd_zero)
next
  case False
  then have x: "0 < a + b" using assms(2,4) by linarith
  show ?thesis
  proof (cases "- 1021 \<le> binary_exponent (a + b)")
    case True
    have "round_to_double (a + b) / 2 = round_to_double ((a + b) / 2)"
      using rtd_half[OF x True] by simp
    moreover have "0 < (a + b) / 2" using x by simp
    then have "round_to_double (round_to_double ((a + b) / 2)) = round_to_double ((a + b) / 2)"
      by (rule rtd_idem)
    ultimately show ?thesis by simp
  next
    case False
    obtain A where A: "0 \<le> A" "a = of_int A * pow2 (- 1074)"
      using double_grid[OF assms(1,2)] by blast
    obtain B where B: "0 \<le> B" "b = of_int B * pow2 (- 1074)"
      using double_grid[OF assms(3,4)] by blast
    have s: "a + b = of_int (A + B) * pow2 (- 1074)" by (simp add: A(2) B(2) algebra_simps)
    have "0 < real_of_int (A + B) * pow2 (- 1074)" using x s by simp
    then have "0 < real_of_int (A + B)" using pow2_pos[of "- 1074"] by (simp add: zero_less_mult_iff)
    then have p: "0 < A + B" by simp
    have "binary_exponent (of_int (A + B) * pow2 (- 1074)) \<le> - 1022" using False s by simp
    then have "round_to_double (of_int (A + B) * pow2 (- 1074)) = of_int (A + B) * pow2 (- 1074)"
      using p by (intro rtd_small_grid)
    then have "round_to_double (a + b) = a + b" by (simp only: s)
    then show ?thesis by simp
  qed
qed

section \<open>Claims about the aggregator\<close>

lemma take2_drop: "Suc i < length s \<Longrightarrow> take 2 (drop i s) = [s ! i, s ! Suc i]"
proof -
  assume a: "Suc i < length s"
  then have "drop i s = s ! i # drop (Suc i) s" by (simp add: Cons_nth_drop_Suc)
  moreover have "drop (Suc i) s = s ! Suc i # drop (Suc (Suc i)) s" using a by (simp add: Cons_nth_drop_Suc)
  ultimately show ?thesis by (simp add: numeral_2_eq_2)
qed

lemma take1_drop: "i < length s \<Longrightarrow> take 1 (drop i s) = [s ! i]"
proof -
  assume a: "i < length s"
  then have "drop i s = s ! i # drop (Suc i) s" by (simp add: Cons_nth_drop_Suc)
  then show ?thesis by simp
qed

lemma series_median_binary64:
  assumes "xs \<noteq> []" "\<forall>p\<in>set xs. round_to_double p = p"
  shows "series_median xs = binary64_median xs"
proof (cases "even (length xs)")
  case True
  define s where "s = sort xs"
  define n where "n = length xs"
  have len: "length s = n" by (simp add: s_def n_def)
  obtain k where k: "n = 2 * k" using True n_def by (auto elim: evenE)
  have "n \<noteq> 0" using assms(1) n_def by simp
  then have k1: "1 \<le> k" using k by simp
  have i: "Suc (n div 2 - 1) < length s" "Suc (n div 2 - 1) = n div 2" using k k1 len by simp_all
  have "take 2 (drop (n div 2 - 1) s) = [s ! (n div 2 - 1), s ! (n div 2)]"
    using take2_drop[OF i(1)] i(2) by simp
  moreover have "even n" "n mod 2 = 0" using True by (simp_all add: n_def)
  ultimately show ?thesis
    by (simp add: series_median_def binary64_median_def Let_def s_def[symmetric] len
                  n_def[symmetric] middle_mean_def)
next
  case False
  define s where "s = sort xs"
  define n where "n = length xs"
  have len: "length s = n" by (simp add: s_def n_def)
  have lt: "n div 2 < length s" using assms(1) len n_def by (cases xs) simp_all
  then have "take 1 (drop (n div 2) s) = [s ! (n div 2)]" by (rule take1_drop)
  moreover have "\<not> even n" "n mod 2 \<noteq> 0" using False by (simp_all add: n_def odd_iff_mod_2_eq_one)
  moreover have "s ! (n div 2) \<in> set xs" using lt nth_mem[of "n div 2" s] by (simp add: s_def)
  then have "round_to_double (s ! (n div 2)) = s ! (n div 2)" using assms(2) by blast
  ultimately show ?thesis
    by (simp add: series_median_def binary64_median_def Let_def s_def[symmetric] len
                  n_def[symmetric] middle_mean_def)
qed

lemma binary64_median_rounded:
  assumes "xs \<noteq> []" "\<forall>p\<in>set xs. round_to_double p = p \<and> 0 \<le> p"
  shows "binary64_median xs = round_to_double (standard_median xs)"
proof -
  define s where "s = sort xs"
  define n where "n = length xs"
  have len: "length s = n" by (simp add: s_def n_def)
  have n: "0 < n" using assms(1) by (simp add: n_def)
  have mem: "round_to_double (s ! i) = s ! i \<and> 0 \<le> s ! i" if "i < n" for i
  proof -
    have "s ! i \<in> set s" using that len by simp
    then have "s ! i \<in> set xs" by (simp add: s_def)
    then show ?thesis using assms(2) by blast
  qed
  show ?thesis
  proof (cases "even n")
    case True
    have i: "n div 2 - 1 < n" "n div 2 < n" using n by simp_all
    have "round_to_double (round_to_double (s ! (n div 2 - 1) + s ! (n div 2)) / 2)
            = round_to_double ((s ! (n div 2 - 1) + s ! (n div 2)) / 2)"
      using mem[OF i(1)] mem[OF i(2)] by (intro rtd_half_sum) simp_all
    then show ?thesis
      using True by (simp add: binary64_median_def standard_median_def Let_def s_def[symmetric] len)
  next
    case False
    have "n div 2 < n" using n by simp
    then have "round_to_double (s ! (n div 2)) = s ! (n div 2)" using mem by blast
    then show ?thesis
      using False by (simp add: binary64_median_def standard_median_def Let_def s_def[symmetric] len)
  qed
qed

lemma series_mean_example:
  "series_mean sequential_sum
     [3602879701896397 / 36028797018963968, 3602879701896397 / 18014398509481984,
      5404319552844595 / 18014398509481984]
     = 7205759403792795 / 36028797018963968"
  by code_simp

lemma binary64_median_example: "binary64_median [2, 4, 6, 8] = 5"
  by code_simp

text \<open>
  Claim C7.  When no row of the frame lies in the window, \<^verbatim>\<open>create_weekly_chart\<close> returns the
  empty marker (\<^verbatim>\<open>None, None\<close>) before any statistic is computed, so no exception is possible
  on that path; the marker is returned in that case only, and statistics are only ever
  computed over a positive number of points.
\<close>

theorem summarize_empty_window:
  "(week_data df week_start week_end = [] \<longrightarrow> create_weekly_chart column_sum df week_start week_end = None)
   \<and> (create_weekly_chart column_sum df week_start week_end = None \<longrightarrow> week_data df week_start week_end = [])
   \<and> (\<forall>st. create_weekly_chart column_sum df week_start week_end = Some st \<longrightarrow>
          total_points st = length (week_data df week_start week_end) \<and> 0 < total_points st)"
proof -
  have a: "week_data df week_start week_end = [] \<longrightarrow> create_weekly_chart column_sum df week_start week_end = None"
    by (simp add: create_weekly_chart_def)
  have b: "create_weekly_chart column_sum df week_start week_end = None \<longrightarrow> week_data df week_start week_end = []"
    by (simp add: create_weekly_chart_def Let_def split: if_splits)
  have c: "\<forall>st. create_weekly_chart column_sum df week_start week_end = Some st \<longrightarrow>
          total_points st = length (week_data df week_start week_end) \<and> 0 < total_points st"
    by (auto simp: create_weekly_chart_def Let_def split: if_splits)
  show ?thesis using a b c by blast
qed

theorem summarize_empty_window_witness:
  "week_data 
     [(\<lparr>wall = 1704000000000000, tzinfo = Some (Chicago_local (- 21600000000))\<rparr>, 3.5)]
      \<lparr>wall = 1704585600000000, tzinfo = Some Chicago\<rparr> 
     \<lparr>wall = 1705190399999999, tzinfo = Some Chicago\<rparr> = []
   \<and> create_weekly_chart sequential_sum 
     [(\<lparr>wall = 1704000000000000, tzinfo = Some (Chicago_local (- 21600000000))\<rparr>, 3.5)]
      \<lparr>wall = 1704585600000000, tzinfo = Some Chicago\<rparr> 
     \<lparr>wall = 1705190399999999, tzinfo = Some Chicago\<rparr> = None"
proof -
  have h: "week_data 
     [(\<lparr>wall = 1704000000000000, tzinfo = Some (Chicago_local (- 21600000000))\<rparr>, 3.5)]
      \<lparr>wall = 1704585600000000, tzinfo = Some Chicago\<rparr> 
     \<lparr>wall = 1705190399999999, tzinfo = Some Chicago\<rparr> = []"
    by (simp add: week_data_def in_week_def instant_def)
  show ?thesis using h summarize_empty_window by blast
qed

text \<open>
  Claim C8.  As stated (the computed median is the standard median) the claim fails by one
  rounding: the statistics are binary64 arithmetic.  For the two prices nearest to 0.1 and
  0.2 the sum of the middle values is rounded before it is halved; the result is
  0.15000000000000002, the binary64 number \<open>1351079888211149 / 2\<^sup>5\<^sup>3\<close>, while the average of
  the two prices is \<open>10808639105689191 / 2\<^sup>5\<^sup>6\<close>.
\<close>

theorem summarize_median_rounding_counterexample:
  "map_option median_price (create_weekly_chart sequential_sum
     [(\<lparr>wall = 1704600000000000, tzinfo = Some (Chicago_local (- 21600000000))\<rparr>, 3602879701896397 / 36028797018963968),
      (\<lparr>wall = 1704700000000000, tzinfo = Some (Chicago_local (- 21600000000))\<rparr>, 3602879701896397 / 18014398509481984)]
     \<lparr>wall = 1704585600000000, tzinfo = Some Chicago\<rparr>
     \<lparr>wall = 1705190399999999, tzinfo = Some Chicago\<rparr>)
     = Some (1351079888211149 / 9007199254740992)
   \<and> standard_median [3602879701896397 / 36028797018963968, 3602879701896397 / 18014398509481984]
       = 10808639105689191 / 72057594037927936
   \<and> (1351079888211149 / 9007199254740992 :: real) \<noteq> 10808639105689191 / 72057594037927936"
  by code_simp

text \<open>
  Claim C8, amended.  For a non-empty list of filtered prices (binary64 numbers between 0
  and 1000) the median among the returned statistics is the standard median rounded to the
  nearest binary64 number.  It is computed by the standard rule in binary64 arithmetic: the
  middle value of the ordered prices on an odd count; on an even count the two middle
  values are added and the sum is halved, each result rounded.  So it is the standard
  median itself exactly when that is a binary64 number, as it is on every odd count; the
  prices 2, 4, 6, 8 give 5.
\<close>

theorem summarize_median_binary64:
  assumes "map snd (week_data df week_start week_end) = ps" "ps \<noteq> []"
      and "\<forall>p\<in>set ps. round_to_double p = p \<and> 0 \<le> p \<and> p \<le> 1000"
  shows "\<exists>st. create_weekly_chart column_sum df week_start week_end = Some st
            \<and> median_price st = round_to_double (standard_median ps)
            \<and> median_price st = binary64_median ps
            \<and> ((median_price st = standard_median ps)
                  = (round_to_double (standard_median ps) = standard_median ps))
            \<and> (odd (length ps) \<longrightarrow> median_price st = standard_median ps)
            \<and> (ps = [2, 4, 6, 8] \<longrightarrow> median_price st = 5)"
proof -
  have ne: "week_data df week_start week_end \<noteq> []" using assms(1,2) by auto
  have d: "\<forall>p\<in>set ps. round_to_double p = p" using assms(3) by blast
  have g: "\<forall>p\<in>set ps. round_to_double p = p \<and> 0 \<le> p" using assms(3) by blast
  have m: "series_median ps = binary64_median ps" using assms(2) d by (rule series_median_binary64)
  have r: "binary64_median ps = round_to_double (standard_median ps)"
    using assms(2) g by (rule binary64_median_rounded)
  have o: "odd (length ps) \<longrightarrow> binary64_median ps = standard_median ps"
    by (simp add: binary64_median_def standard_median_def Let_def)
  have e: "ps = [2, 4, 6, 8] \<longrightarrow> binary64_median ps = 5" using binary64_median_example by simp
  have e5: "ps = [2, 4, 6, 8] \<longrightarrow> round_to_double (standard_median ps) = 5"
    by (rule e[unfolded r])
  have o5: "odd (length ps) \<longrightarrow> round_to_double (standard_median ps) = standard_median ps"
    by (rule o[unfolded r])
  have c: "create_weekly_chart column_sum df week_start week_end =
             Some \<lparr>avg_price = series_mean column_sum ps, median_price = binary64_median ps,
                   min_price = Min (set ps), max_price = Max (set ps),
                   total_points = length (week_data df week_start week_end)\<rparr>"
    using ne by (simp add: create_weekly_chart_def Let_def assms(1) m)
  show ?thesis
    unfolding c r using o5 e5 by simp
qed

theorem summarize_median_binary64_witness:
  "map snd (week_data
     [(\<lparr>wall = 1704600000000000, tzinfo = Some (Chicago_local (- 21600000000))\<rparr>, 2),
      (\<lparr>wall = 1704700000000000, tzinfo = Some (Chicago_local (- 21600000000))\<rparr>, 4),
      (\<lparr>wall = 1704000000000000, tzinfo = Some (Chicago_local (- 21600000000))\<rparr>, 100),
      (\<lparr>wall = 1704800000000000, tzinfo = Some (Chicago_local (- 21600000000))\<rparr>, 6),
      (\<lparr>wall = 1704900000000000, tzinfo = Some (Chicago_local (- 21600000000))\<rparr>, 8)]
     \<lparr>wall = 1704585600000000, tzinfo = Some Chicago\<rparr>
     \<lparr>wall = 1705190399999999, tzinfo = Some Chicago\<rparr>) = [2, 4, 6, 8]
   \<and> [2, 4, 6, 8 :: real] \<noteq> []
   \<and> round_to_double 2 = 2 \<and> round_to_double 4 = 4 \<and> round_to_double 6 = 6 \<and> round_to_double 8 = 8
   \<and> (\<exists>st. create_weekly_chart sequential_sum
     [(\<lparr>wall = 1704600000000000, tzinfo = Some (Chicago_local (- 21600000000))\<rparr>, 2),
      (\<lparr>wall = 1704700000000000, tzinfo = Some (Chicago_local (- 21600000000))\<rparr>, 4),
      (\<lparr>wall = 1704000000000000, tzinfo = Some (Chicago_local (- 21600000000))\<rparr>, 100),
      (\<lparr>wall = 1704800000000000, tzinfo = Some (Chicago_local (- 21600000000))\<rparr>, 6),
      (\<lparr>wall = 1704900000000000, tzinfo = Some (Chicago_local (- 21600000000))\<rparr>, 8)]
     \<lparr>wall = 1704585600000000, tzinfo = Some Chicago\<rparr>
     \<lparr>wall = 1705190399999999, tzinfo = Some Chicago\<rparr> = Some st \<and> median_price st = 5)"
proof -
  have h: "map snd (week_data
     [(\<lparr>wall = 1704600000000000, tzinfo = Some (Chicago_local (- 21600000000))\<rparr>, 2),
      (\<lparr>wall = 1704700000000000, tzinfo = Some (Chicago_local (- 21600000000))\<rparr>, 4),
      (\<lparr>wall = 1704000000000000, tzinfo = Some (Chicago_local (- 21600000000))\<rparr>, 100),
      (\<lparr>wall = 1704800000000000, tzinfo = Some (Chicago_local (- 21600000000))\<rparr>, 6),
      (\<lparr>wall = 1704900000000000, tzinfo = Some (Chicago_local (- 21600000000))\<rparr>, 8)]
     \<lparr>wall = 1704585600000000, tzinfo = Some Chicago\<rparr>
     \<lparr>wall = 1705190399999999, tzinfo = Some Chicago\<rparr>) = [2, 4, 6, 8]"
    by (simp add: week_data_def in_week_def instant_def)
  have n: "[2, 4, 6, 8 :: real] \<noteq> []" by simp
  have r: "round_to_double 2 = 2" "round_to_double 4 = 4" "round_to_double 6 = 6" "round_to_double 8 = 8"
    by code_simp+
  have v: "\<forall>p\<in>set [2, 4, 6, 8 :: real]. round_to_double p = p \<and> 0 \<le> p \<and> p \<le> 1000"
    using r by simp
  show ?thesis
    using h n r summarize_median_binary64[OF h n v, of sequential_sum] by auto
qed

end
